theory Spec2Isabelle
  imports Main
begin

section \<open>Data model of \<open>script.js\<close>\<close>

text \<open>
  The class \<open>TicTacToe\<close> keeps the board as an array of nine strings, each \<open>''\<close>, \<open>'X'\<close> or
  \<open>'O'\<close>. The two player tokens are the constructors \<open>PX\<close> and \<open>PO\<close>; a cell is \<open>Empty\<close>
  (the empty string) or carries the mark of a player.
\<close>

datatype player = PX | PO

datatype cell = Empty | Mark player

type_synonym board = "cell list"

datatype mode = Pvp | Pvc

text \<open>
  What \<open>statusDisplay\<close> shows: whose turn it is, that the computer is thinking, a draw,
  or the winner together with the highlighted line.
\<close>

datatype status = Turn player | Thinking | DrawShown | WinShown player "nat list"

text \<open>The object returned by \<open>checkResult\<close>; \<open>null\<close> is \<open>None\<close>.\<close>

datatype result = Winner player "nat list" | DrawResult

text \<open>
  A method either returns a value or throws, and in both cases leaves a state behind. The
  only exception the code can raise is the \<open>TypeError\<close> of reading a property of
  \<open>undefined\<close>.
\<close>

datatype error = TypeError

datatype ('a, 's) outcome = Returned 'a 's | Threw error 's

text \<open>
  The objects built by \<open>minimax\<close>: \<open>{score: s}\<close> at a terminal board has no index,
  \<open>{index: i, score: s}\<close> otherwise.
\<close>

record move =
  index :: "nat option"
  score :: int

text \<open>The fields of the session object that the game logic reads and writes.\<close>

record game =
  board :: board
  currentPlayer :: player
  isGameActive :: bool
  gameMode :: mode
  humanPlayer :: player
  aiPlayer :: player
  statusDisplay :: status

definition winningConditions :: "(nat \<times> nat \<times> nat) list" where
  "winningConditions =
     [(0, 1, 2), (3, 4, 5), (6, 7, 8),
      (0, 3, 6), (1, 4, 7), (2, 5, 8),
      (0, 4, 8), (2, 4, 6)]"

text \<open>
  Reading \<open>board[i]\<close>: outside the array the result is \<open>undefined\<close>, here \<open>None\<close>, which is
  equal neither to the empty string nor to a mark. The clicked index comes from
  \<open>parseInt\<close> and may be any integer.
\<close>

definition cellAt :: "board \<Rightarrow> nat \<Rightarrow> cell option" where
  "cellAt b i = (if i < length b then Some (b ! i) else None)"

definition clickedCell :: "board \<Rightarrow> int \<Rightarrow> cell option" where
  "clickedCell b i = (if 0 \<le> i then cellAt b (nat i) else None)"

section \<open>The search\<close>

text \<open>
  \<open>availSpots\<close> is the \<open>map\<close>/\<open>filter\<close> pipeline at the head of \<open>minimax\<close>: the indices of
  the empty cells in ascending order.
\<close>

fun availFrom :: "nat \<Rightarrow> board \<Rightarrow> nat list" where
  "availFrom idx [] = []"
| "availFrom idx (val # rest) =
     (if val = Empty then idx # availFrom (Suc idx) rest else availFrom (Suc idx) rest)"

definition availSpots :: "board \<Rightarrow> nat list" where
  "availSpots newBoard = availFrom 0 newBoard"

text \<open>\<open>checkWinState\<close> walks the table of lines and stops at the first line held by the
  player.\<close>

fun checkWinLines :: "(nat \<times> nat \<times> nat) list \<Rightarrow> board \<Rightarrow> player \<Rightarrow> bool" where
  "checkWinLines [] b p = False"
| "checkWinLines ((x, y, z) # rest) b p =
     (if cellAt b x = Some (Mark p) \<and> cellAt b y = Some (Mark p) \<and> cellAt b z = Some (Mark p)
      then True else checkWinLines rest b p)"

definition checkWinState :: "board \<Rightarrow> player \<Rightarrow> bool" where
  "checkWinState b p = checkWinLines winningConditions b p"

text \<open>
  The two selection loops. \<open>bestMove\<close> starts undefined (\<open>None\<close>) and is overwritten only
  by a score strictly beyond the best one so far, so the first move with the extremal
  score is kept.
\<close>

fun maxLoop :: "move list \<Rightarrow> nat \<Rightarrow> int \<Rightarrow> nat option \<Rightarrow> nat option" where
  "maxLoop [] i bestScore bestMove = bestMove"
| "maxLoop (m # ms) i bestScore bestMove =
     (if score m > bestScore then maxLoop ms (Suc i) (score m) (Some i)
      else maxLoop ms (Suc i) bestScore bestMove)"

fun minLoop :: "move list \<Rightarrow> nat \<Rightarrow> int \<Rightarrow> nat option \<Rightarrow> nat option" where
  "minLoop [] i bestScore bestMove = bestMove"
| "minLoop (m # ms) i bestScore bestMove =
     (if score m < bestScore then minLoop ms (Suc i) (score m) (Some i)
      else minLoop ms (Suc i) bestScore bestMove)"

text \<open>\<open>moves[bestMove]\<close>; with \<open>bestMove\<close> still undefined the result is \<open>undefined\<close>.\<close>

definition chooseBest :: "player \<Rightarrow> player \<Rightarrow> move list \<Rightarrow> move option" where
  "chooseBest player ai moves =
     (case (if player = ai then maxLoop moves 0 (- 10000) None
            else minLoop moves 0 10000 None) of
        None \<Rightarrow> None
      | Some bestMove \<Rightarrow> (if bestMove < length moves then Some (moves ! bestMove) else None))"

text \<open>
  \<open>minimax\<close> mutates the array it is given and calls itself, so the model threads the
  board through the calls and bounds the depth of the recursion by a fuel argument:
  \<open>None\<close> means that the fuel ran out. \<open>tryMoves\<close> is the \<open>for\<close> loop over \<open>availSpots\<close>: it
  writes the mover's mark, recurses with the other player (the human after the computer,
  the computer after anyone else), reads \<open>result.score\<close>, which throws when the callee
  returned \<open>undefined\<close>, and writes the empty string back. The indices it is given come
  from \<open>availSpots\<close> of an array of the same length, so every write is inside the array.
\<close>

fun minimax_fuel ::
    "nat \<Rightarrow> player \<Rightarrow> player \<Rightarrow> board \<Rightarrow> player \<Rightarrow> (move option, board) outcome option"
  and tryMoves ::
    "nat \<Rightarrow> player \<Rightarrow> player \<Rightarrow> nat list \<Rightarrow> board \<Rightarrow> player \<Rightarrow> (move list, board) outcome option"
where
  "minimax_fuel 0 human ai newBoard player = None"
| "minimax_fuel (Suc n) human ai newBoard player =
     (if checkWinState newBoard human
        then Some (Returned (Some \<lparr>index = None, score = - 10\<rparr>) newBoard)
      else if checkWinState newBoard ai
        then Some (Returned (Some \<lparr>index = None, score = 10\<rparr>) newBoard)
      else if availSpots newBoard = []
        then Some (Returned (Some \<lparr>index = None, score = 0\<rparr>) newBoard)
      else
        (case tryMoves n human ai (availSpots newBoard) newBoard player of
           None \<Rightarrow> None
         | Some (Threw e b') \<Rightarrow> Some (Threw e b')
         | Some (Returned moves b') \<Rightarrow> Some (Returned (chooseBest player ai moves) b')))"
| "tryMoves n human ai [] newBoard player = Some (Returned [] newBoard)"
| "tryMoves n human ai (i # rest) newBoard player =
     (case minimax_fuel n human ai (newBoard[i := Mark player])
             (if player = ai then human else ai) of
        None \<Rightarrow> None
      | Some (Threw e b1) \<Rightarrow> Some (Threw e b1)
      | Some (Returned None b1) \<Rightarrow> Some (Threw TypeError b1)
      | Some (Returned (Some r) b1) \<Rightarrow>
          (case tryMoves n human ai rest (b1[i := Empty]) player of
             None \<Rightarrow> None
           | Some (Threw e b2) \<Rightarrow> Some (Threw e b2)
           | Some (Returned ms b2) \<Rightarrow>
               Some (Returned (\<lparr>index = Some i, score = score r\<rparr> # ms) b2)))"

text \<open>The call with one unit of fuel more than there are empty cells.\<close>

definition minimax :: "player \<Rightarrow> player \<Rightarrow> board \<Rightarrow> player \<Rightarrow> (move option, board) outcome option" where
  "minimax human ai newBoard player =
     minimax_fuel (Suc (length (availSpots newBoard))) human ai newBoard player"

section \<open>The rules engine and the session\<close>

text \<open>
  The loop of \<open>checkResult\<close>: a line with an empty cell is skipped, and the first line
  whose three cells are equal is the winning line.
\<close>

fun findLine :: "(nat \<times> nat \<times> nat) list \<Rightarrow> board \<Rightarrow> nat list option" where
  "findLine [] b = None"
| "findLine ((x, y, z) # rest) b =
     (if cellAt b x = Some Empty \<or> cellAt b y = Some Empty \<or> cellAt b z = Some Empty
        then findLine rest b
      else if cellAt b x = cellAt b y \<and> cellAt b y = cellAt b z
        then Some [x, y, z]
      else findLine rest b)"

definition checkResult :: "game \<Rightarrow> result option" where
  "checkResult g =
     (case findLine winningConditions (board g) of
        Some winningLine \<Rightarrow> Some (Winner (currentPlayer g) winningLine)
      | None \<Rightarrow> (if Empty \<notin> set (board g) then Some DrawResult else None))"

definition handleGameEnd :: "result \<Rightarrow> game \<Rightarrow> game" where
  "handleGameEnd r g =
     (case r of
        DrawResult \<Rightarrow> g\<lparr>isGameActive := False, statusDisplay := DrawShown\<rparr>
      | Winner w line \<Rightarrow> g\<lparr>isGameActive := False, statusDisplay := WinShown w line\<rparr>)"

definition updateStatus :: "game \<Rightarrow> game" where
  "updateStatus g =
     (if \<not> isGameActive g then g
      else if gameMode g = Pvc \<and> currentPlayer g = aiPlayer g
        then g\<lparr>statusDisplay := Thinking\<rparr>
      else g\<lparr>statusDisplay := Turn (currentPlayer g)\<rparr>)"

text \<open>
  \<open>makeMove\<close> writes the mark and then touches \<open>this.cells[index]\<close>. Of the page only the
  status line is kept, and the page is taken to have one cell element for each entry of
  the board. For an index beyond them the element is \<open>undefined\<close> and the method throws
  after the write has lengthened the array; an array with holes has no counterpart in
  \<open>board\<close>, so the model hands back the session as it was. Both callers pass an index
  inside the board. The turn passes to the other player only when \<open>checkResult\<close> found
  nothing.
\<close>

definition makeMove :: "nat \<Rightarrow> player \<Rightarrow> game \<Rightarrow> (unit, game) outcome" where
  "makeMove idx player g =
     (if length (board g) \<le> idx then Threw TypeError g
      else
        (case checkResult (g\<lparr>board := (board g)[idx := Mark player]\<rparr>) of
           Some r \<Rightarrow>
             Returned () (handleGameEnd r (g\<lparr>board := (board g)[idx := Mark player]\<rparr>))
         | None \<Rightarrow>
             Returned ()
               (updateStatus
                 (g\<lparr>board := (board g)[idx := Mark player],
                    currentPlayer := (if currentPlayer g = PX then PO else PX)\<rparr>))))"

text \<open>
  The click handler returns whether it has scheduled \<open>makeAiMove\<close> with \<open>setTimeout\<close>.
\<close>

definition handleCellClick :: "int \<Rightarrow> game \<Rightarrow> (bool, game) outcome" where
  "handleCellClick clickedCellIndex g =
     (if clickedCell (board g) clickedCellIndex \<noteq> Some Empty \<or> \<not> isGameActive g
        then Returned False g
      else if gameMode g = Pvc \<and> currentPlayer g = aiPlayer g
        then Returned False g
      else
        (case makeMove (nat clickedCellIndex) (currentPlayer g) g of
           Threw e g' \<Rightarrow> Threw e g'
         | Returned u g' \<Rightarrow>
             Returned (isGameActive g' \<and> gameMode g' = Pvc \<and> currentPlayer g' = aiPlayer g')
               g'))"

text \<open>
  \<open>makeAiMove\<close> passes \<open>this.board\<close> itself to \<open>minimax\<close>, so the board of the session
  after the search is the board the search leaves behind.
\<close>

definition makeAiMove :: "game \<Rightarrow> (unit, game) outcome option" where
  "makeAiMove g =
     (if \<not> isGameActive g then Some (Returned () g)
      else
        (case minimax (humanPlayer g) (aiPlayer g) (board g) (aiPlayer g) of
           None \<Rightarrow> None
         | Some (Threw e b') \<Rightarrow> Some (Threw e (g\<lparr>board := b'\<rparr>))
         | Some (Returned None b') \<Rightarrow> Some (Threw TypeError (g\<lparr>board := b'\<rparr>))
         | Some (Returned (Some m) b') \<Rightarrow>
             (case index m of
                None \<Rightarrow> Some (Threw TypeError (g\<lparr>board := b'\<rparr>))
              | Some bestMoveIndex \<Rightarrow>
                  Some (makeMove bestMoveIndex (aiPlayer g) (g\<lparr>board := b'\<rparr>)))))"

definition resetGame :: "game \<Rightarrow> game" where
  "resetGame g =
     updateStatus (g\<lparr>board := replicate 9 Empty, isGameActive := True, currentPlayer := PX\<rparr>)"

definition setMode :: "mode \<Rightarrow> game \<Rightarrow> game" where
  "setMode m g = (if gameMode g = m then g else resetGame (g\<lparr>gameMode := m\<rparr>))"

definition newGame :: game where
  "newGame =
     updateStatus
       \<lparr>board = replicate 9 Empty, currentPlayer = PX, isGameActive = True, gameMode = Pvp,
        humanPlayer = PX, aiPlayer = PO, statusDisplay = Turn PX\<rparr>"

text \<open>
  One turn of a game: a click, then the scheduled computer move when the click handler has
  set the timer. A click that arrives while the timer is pending finds the computer to
  move and is turned away by the handler, so taking the timer to fire before the next
  click loses no play of the human.
\<close>

definition playTurn :: "int \<Rightarrow> game \<Rightarrow> (unit, game) outcome option" where
  "playTurn clickedCellIndex g =
     (case handleCellClick clickedCellIndex g of
        Threw e g' \<Rightarrow> Some (Threw e g')
      | Returned timer g' \<Rightarrow> (if timer then makeAiMove g' else Some (Returned () g')))"

fun playGame :: "int list \<Rightarrow> game \<Rightarrow> (unit, game) outcome option" where
  "playGame [] g = Some (Returned () g)"
| "playGame (c # cs) g =
     (case playTurn c g of
        None \<Rightarrow> None
      | Some (Threw e g') \<Rightarrow> Some (Threw e g')
      | Some (Returned u g') \<Rightarrow> playGame cs g')"

section \<open>Derived notions used in the statements\<close>

text \<open>
  A board is terminal when \<open>minimax\<close> answers it without recursion. \<open>moveOf\<close> and
  \<open>scoreOf\<close> read the move and the score out of the result of \<open>minimax\<close>; \<open>childScore\<close>
  is the score of the board with one more mark, searched for the next mover.
\<close>

definition terminal :: "player \<Rightarrow> player \<Rightarrow> board \<Rightarrow> bool" where
  "terminal human ai b = (checkWinState b human \<or> checkWinState b ai \<or> availSpots b = [])"

definition moveOf :: "player \<Rightarrow> player \<Rightarrow> board \<Rightarrow> player \<Rightarrow> move" where
  "moveOf human ai b player =
     (case minimax human ai b player of
        Some (Returned (Some m) b') \<Rightarrow> m
      | _ \<Rightarrow> \<lparr>index = None, score = 0\<rparr>)"

definition scoreOf :: "player \<Rightarrow> player \<Rightarrow> board \<Rightarrow> player \<Rightarrow> int" where
  "scoreOf human ai b player = score (moveOf human ai b player)"

definition childScore :: "player \<Rightarrow> player \<Rightarrow> board \<Rightarrow> player \<Rightarrow> nat \<Rightarrow> int" where
  "childScore human ai b player i =
     scoreOf human ai (b[i := Mark player]) (if player = ai then human else ai)"

definition childMoves :: "player \<Rightarrow> player \<Rightarrow> board \<Rightarrow> player \<Rightarrow> move list" where
  "childMoves human ai b player =
     map (\<lambda>i. \<lparr>index = Some i, score = childScore human ai b player i\<rparr>) (availSpots b)"

text \<open>
  \<open>forced True\<close> searches for a proof that the computer can keep the score at 0 or above,
  \<open>forced False\<close> that the human can keep it at 0 or below: the side that needs only one
  good move tries the centre, the corners and the edges in this order and stops at the
  first success, the other side is checked on all its moves.
\<close>

fun anyOf :: "('a \<Rightarrow> bool) \<Rightarrow> 'a list \<Rightarrow> bool" where
  "anyOf f [] = False"
| "anyOf f (i # is) = (if f i then True else anyOf f is)"

fun allOf :: "('a \<Rightarrow> bool) \<Rightarrow> 'a list \<Rightarrow> bool" where
  "allOf f [] = True"
| "allOf f (i # is) = (if f i then allOf f is else False)"

definition candidates :: "board \<Rightarrow> nat list" where
  "candidates b = filter (\<lambda>i. cellAt b i = Some Empty) [4, 0, 2, 6, 8, 1, 3, 5, 7]"

fun forced :: "bool \<Rightarrow> nat \<Rightarrow> player \<Rightarrow> player \<Rightarrow> board \<Rightarrow> player \<Rightarrow> bool" where
  "forced side 0 human ai b player = False"
| "forced side (Suc n) human ai b player =
     (if checkWinState b human then \<not> side
      else if checkWinState b ai then side
      else if availSpots b = [] then True
      else if (player = ai) = side
        then anyOf (\<lambda>i. forced side n human ai (b[i := Mark player])
                          (if player = ai then human else ai)) (candidates b)
      else allOf (\<lambda>i. forced side n human ai (b[i := Mark player])
                        (if player = ai then human else ai)) (availSpots b))"

text \<open>A line held by a player, a line with three equal marks, and its index list.\<close>

definition lineHeld :: "board \<Rightarrow> player \<Rightarrow> nat \<times> nat \<times> nat \<Rightarrow> bool" where
  "lineHeld b q l =
     (case l of (x, y, z) \<Rightarrow>
        cellAt b x = Some (Mark q) \<and> cellAt b y = Some (Mark q) \<and> cellAt b z = Some (Mark q))"

definition uniformLine :: "board \<Rightarrow> nat \<times> nat \<times> nat \<Rightarrow> bool" where
  "uniformLine b l = (lineHeld b PX l \<or> lineHeld b PO l)"

definition lineCells :: "nat \<times> nat \<times> nat \<Rightarrow> nat list" where
  "lineCells l = (case l of (x, y, z) \<Rightarrow> [x, y, z])"

text \<open>
  The invariant of a game against the computer started by \<open>setMode Pvc newGame\<close>: the
  human has no completed line, and either it is the human's turn on a board that the
  search scores 0 or above for the human to move, or the game is over with a draw or a
  win of the computer on display.
\<close>

definition sessionInv :: "game \<Rightarrow> bool" where
  "sessionInv g =
     (gameMode g = Pvc \<and> humanPlayer g = PX \<and> aiPlayer g = PO \<and> length (board g) = 9
      \<and> \<not> checkWinState (board g) PX
      \<and> (if isGameActive g
           then currentPlayer g = PX \<and> \<not> checkWinState (board g) PO \<and> Empty \<in> set (board g)
                \<and> 0 \<le> scoreOf PX PO (board g) PX
           else (case statusDisplay g of
                   DrawShown \<Rightarrow> True
                 | WinShown w line \<Rightarrow> w = PO
                 | _ \<Rightarrow> False)))"

section \<open>Empty cells, the selection loops and totality of the search\<close>

lemma in_availFrom:
  "j \<in> set (availFrom k b) \<longleftrightarrow> k \<le> j \<and> j - k < length b \<and> b ! (j - k) = Empty"
proof (induction b arbitrary: k)
  case Nil
  then show ?case by simp
next
  case (Cons c cs)
  show ?case
  proof (cases "j \<le> k")
    case True
    then show ?thesis using Cons.IH [of "Suc k"] by auto
  next
    case False
    then have "j - k = Suc (j - Suc k)" by simp
    then show ?thesis using False Cons.IH [of "Suc k"] by auto
  qed
qed

lemma in_availSpots: "i \<in> set (availSpots b) \<longleftrightarrow> i < length b \<and> b ! i = Empty"
  by (simp add: availSpots_def in_availFrom)

lemma availFrom_sorted: "sorted_wrt (<) (availFrom k b)"
  by (induction b arbitrary: k) (auto simp: in_availFrom)

lemma availSpots_sorted: "sorted_wrt (<) (availSpots b)"
  by (simp add: availSpots_def availFrom_sorted)

lemma availFrom_length: "length (availFrom k b) = length (filter (\<lambda>c. c = Empty) b)"
  by (induction b arbitrary: k) auto

lemma availSpots_length: "length (availSpots b) = length (filter (\<lambda>c. c = Empty) b)"
  by (simp add: availSpots_def availFrom_length)

lemma filter_update_less:
  "i < length b \<Longrightarrow> b ! i = Empty \<Longrightarrow>
   length (filter (\<lambda>c. c = Empty) (b[i := Mark p])) < length (filter (\<lambda>c. c = Empty) b)"
proof (induction b arbitrary: i)
  case Nil
  then show ?case by simp
next
  case (Cons c cs)
  then show ?case by (cases i) (force simp: Suc_le_eq)+
qed

lemma availSpots_child_less:
  "i \<in> set (availSpots b) \<Longrightarrow> length (availSpots (b[i := Mark p])) < length (availSpots b)"
  by (simp add: in_availSpots availSpots_length filter_update_less)

lemma undo_move: "i \<in> set (availSpots b) \<Longrightarrow> b[i := Mark p, i := Empty] = b"
  by (simp add: in_availSpots list_update_same_conv)

lemma tryMoves_total:
  assumes IH: "\<And>b p. length (availSpots b) < n \<Longrightarrow>
                 \<exists>m. minimax_fuel n h a b p = Some (Returned (Some m) b) \<and> score m \<in> {- 10, 0, 10}"
  shows "set is \<subseteq> set (availSpots b) \<Longrightarrow> length (availSpots b) \<le> n \<Longrightarrow>
         \<exists>ms. tryMoves n h a is b p = Some (Returned ms b) \<and> map index ms = map Some is
               \<and> (\<forall>m\<in>set ms. score m \<in> {- 10, 0, 10})"
proof (induction "is")
  case Nil
  then show ?case by simp
next
  case (Cons i "is")
  from Cons.prems have i: "i \<in> set (availSpots b)" by simp
  then have "length (availSpots (b[i := Mark p])) < n"
    using availSpots_child_less [of i b p] Cons.prems(2) by simp
  from IH [OF this, of "if p = a then h else a"] obtain m where
    m: "minimax_fuel n h a (b[i := Mark p]) (if p = a then h else a)
          = Some (Returned (Some m) (b[i := Mark p]))" "score m \<in> {- 10, 0, 10}"
    by blast
  from Cons.IH Cons.prems obtain ms where
    ms: "tryMoves n h a is b p = Some (Returned ms b)" "map index ms = map Some is"
        "\<forall>m\<in>set ms. score m \<in> {- 10, 0, 10}"
    by auto
  have "tryMoves n h a (i # is) b p
          = Some (Returned (\<lparr>index = Some i, score = score m\<rparr> # ms) b)"
    using m(1) ms(1) undo_move [OF i, of p] by simp
  then show ?case using m(2) ms(2,3) by simp
qed

lemma maxLoop_spec:
  "(maxLoop ms i bs bm = bm \<and> (\<forall>m\<in>set ms. score m \<le> bs)) \<or>
   (\<exists>k<length ms. maxLoop ms i bs bm = Some (i + k) \<and> bs < score (ms ! k)
       \<and> (\<forall>j<length ms. score (ms ! j) \<le> score (ms ! k))
       \<and> (\<forall>j<k. score (ms ! j) < score (ms ! k)))"
proof (induction ms arbitrary: i bs bm)
  case Nil
  then show ?case by simp
next
  case (Cons m ms)
  show ?case
  proof (cases "score m > bs")
    case True
    from Cons.IH [of "Suc i" "score m" "Some i"] show ?thesis
    proof
      assume "maxLoop ms (Suc i) (score m) (Some i) = Some i \<and> (\<forall>x\<in>set ms. score x \<le> score m)"
      then have "maxLoop (m # ms) i bs bm = Some (i + 0) \<and> bs < score ((m # ms) ! 0)
          \<and> (\<forall>j<length (m # ms). score ((m # ms) ! j) \<le> score ((m # ms) ! 0))
          \<and> (\<forall>j<0. score ((m # ms) ! j) < score ((m # ms) ! 0))"
        using True by (auto simp: nth_Cons split: nat.splits)
      then show ?thesis by blast
    next
      assume "\<exists>k<length ms. maxLoop ms (Suc i) (score m) (Some i) = Some (Suc i + k)
          \<and> score m < score (ms ! k)
          \<and> (\<forall>j<length ms. score (ms ! j) \<le> score (ms ! k))
          \<and> (\<forall>j<k. score (ms ! j) < score (ms ! k))"
      then obtain k where k: "k < length ms"
          "maxLoop ms (Suc i) (score m) (Some i) = Some (Suc i + k)"
          "score m < score (ms ! k)"
          "\<forall>j<length ms. score (ms ! j) \<le> score (ms ! k)"
          "\<forall>j<k. score (ms ! j) < score (ms ! k)"
        by blast
      have "Suc k < length (m # ms) \<and> maxLoop (m # ms) i bs bm = Some (i + Suc k)
          \<and> bs < score ((m # ms) ! Suc k)
          \<and> (\<forall>j<length (m # ms). score ((m # ms) ! j) \<le> score ((m # ms) ! Suc k))
          \<and> (\<forall>j<Suc k. score ((m # ms) ! j) < score ((m # ms) ! Suc k))"
        using True k by (auto simp: nth_Cons split: nat.splits)
      then show ?thesis by blast
    qed
  next
    case False
    from Cons.IH [of "Suc i" bs bm] show ?thesis
    proof
      assume "maxLoop ms (Suc i) bs bm = bm \<and> (\<forall>x\<in>set ms. score x \<le> bs)"
      then show ?thesis using False by auto
    next
      assume "\<exists>k<length ms. maxLoop ms (Suc i) bs bm = Some (Suc i + k)
          \<and> bs < score (ms ! k)
          \<and> (\<forall>j<length ms. score (ms ! j) \<le> score (ms ! k))
          \<and> (\<forall>j<k. score (ms ! j) < score (ms ! k))"
      then obtain k where k: "k < length ms"
          "maxLoop ms (Suc i) bs bm = Some (Suc i + k)"
          "bs < score (ms ! k)"
          "\<forall>j<length ms. score (ms ! j) \<le> score (ms ! k)"
          "\<forall>j<k. score (ms ! j) < score (ms ! k)"
        by blast
      have "Suc k < length (m # ms) \<and> maxLoop (m # ms) i bs bm = Some (i + Suc k)
          \<and> bs < score ((m # ms) ! Suc k)
          \<and> (\<forall>j<length (m # ms). score ((m # ms) ! j) \<le> score ((m # ms) ! Suc k))
          \<and> (\<forall>j<Suc k. score ((m # ms) ! j) < score ((m # ms) ! Suc k))"
        using False k by (auto simp: nth_Cons split: nat.splits)
      then show ?thesis by blast
    qed
  qed
qed

lemma minLoop_spec:
  "(minLoop ms i bs bm = bm \<and> (\<forall>m\<in>set ms. bs \<le> score m)) \<or>
   (\<exists>k<length ms. minLoop ms i bs bm = Some (i + k) \<and> score (ms ! k) < bs
       \<and> (\<forall>j<length ms. score (ms ! k) \<le> score (ms ! j))
       \<and> (\<forall>j<k. score (ms ! k) < score (ms ! j)))"
proof (induction ms arbitrary: i bs bm)
  case Nil
  then show ?case by simp
next
  case (Cons m ms)
  show ?case
  proof (cases "score m < bs")
    case True
    from Cons.IH [of "Suc i" "score m" "Some i"] show ?thesis
    proof
      assume "minLoop ms (Suc i) (score m) (Some i) = Some i \<and> (\<forall>x\<in>set ms. score m \<le> score x)"
      then have "minLoop (m # ms) i bs bm = Some (i + 0) \<and> score ((m # ms) ! 0) < bs
          \<and> (\<forall>j<length (m # ms). score ((m # ms) ! 0) \<le> score ((m # ms) ! j))
          \<and> (\<forall>j<0. score ((m # ms) ! 0) < score ((m # ms) ! j))"
        using True by (auto simp: nth_Cons split: nat.splits)
      then show ?thesis by blast
    next
      assume "\<exists>k<length ms. minLoop ms (Suc i) (score m) (Some i) = Some (Suc i + k)
          \<and> score (ms ! k) < score m
          \<and> (\<forall>j<length ms. score (ms ! k) \<le> score (ms ! j))
          \<and> (\<forall>j<k. score (ms ! k) < score (ms ! j))"
      then obtain k where k: "k < length ms"
          "minLoop ms (Suc i) (score m) (Some i) = Some (Suc i + k)"
          "score (ms ! k) < score m"
          "\<forall>j<length ms. score (ms ! k) \<le> score (ms ! j)"
          "\<forall>j<k. score (ms ! k) < score (ms ! j)"
        by blast
      have "Suc k < length (m # ms) \<and> minLoop (m # ms) i bs bm = Some (i + Suc k)
          \<and> score ((m # ms) ! Suc k) < bs
          \<and> (\<forall>j<length (m # ms). score ((m # ms) ! Suc k) \<le> score ((m # ms) ! j))
          \<and> (\<forall>j<Suc k. score ((m # ms) ! Suc k) < score ((m # ms) ! j))"
        using True k by (auto simp: nth_Cons split: nat.splits)
      then show ?thesis by blast
    qed
  next
    case False
    from Cons.IH [of "Suc i" bs bm] show ?thesis
    proof
      assume "minLoop ms (Suc i) bs bm = bm \<and> (\<forall>x\<in>set ms. bs \<le> score x)"
      then show ?thesis using False by auto
    next
      assume "\<exists>k<length ms. minLoop ms (Suc i) bs bm = Some (Suc i + k)
          \<and> score (ms ! k) < bs
          \<and> (\<forall>j<length ms. score (ms ! k) \<le> score (ms ! j))
          \<and> (\<forall>j<k. score (ms ! k) < score (ms ! j))"
      then obtain k where k: "k < length ms"
          "minLoop ms (Suc i) bs bm = Some (Suc i + k)"
          "score (ms ! k) < bs"
          "\<forall>j<length ms. score (ms ! k) \<le> score (ms ! j)"
          "\<forall>j<k. score (ms ! k) < score (ms ! j)"
        by blast
      have "Suc k < length (m # ms) \<and> minLoop (m # ms) i bs bm = Some (i + Suc k)
          \<and> score ((m # ms) ! Suc k) < bs
          \<and> (\<forall>j<length (m # ms). score ((m # ms) ! Suc k) \<le> score ((m # ms) ! j))
          \<and> (\<forall>j<Suc k. score ((m # ms) ! Suc k) < score ((m # ms) ! j))"
        using False k by (auto simp: nth_Cons split: nat.splits)
      then show ?thesis by blast
    qed
  qed
qed

lemma chooseBest_max:
  assumes "ms \<noteq> []" and "\<forall>m\<in>set ms. - 10000 < score m"
  shows "\<exists>k<length ms. chooseBest a a ms = Some (ms ! k)
           \<and> (\<forall>j<length ms. score (ms ! j) \<le> score (ms ! k))
           \<and> (\<forall>j<k. score (ms ! j) < score (ms ! k))"
proof -
  from assms have "hd ms \<in> set ms" "\<not> score (hd ms) \<le> - 10000"
    by (cases ms; force)+
  then have "\<not> (\<forall>m\<in>set ms. score m \<le> - 10000)" by blast
  with maxLoop_spec [of ms 0 "- 10000" None] obtain k where
    "k < length ms" "maxLoop ms 0 (- 10000) None = Some k"
    "\<forall>j<length ms. score (ms ! j) \<le> score (ms ! k)"
    "\<forall>j<k. score (ms ! j) < score (ms ! k)"
    by auto
  then show ?thesis by (auto simp: chooseBest_def)
qed

lemma chooseBest_min:
  assumes "ms \<noteq> []" and "\<forall>m\<in>set ms. score m < 10000" and "p \<noteq> a"
  shows "\<exists>k<length ms. chooseBest p a ms = Some (ms ! k)
           \<and> (\<forall>j<length ms. score (ms ! k) \<le> score (ms ! j))
           \<and> (\<forall>j<k. score (ms ! k) < score (ms ! j))"
proof -
  from assms have "hd ms \<in> set ms" "\<not> 10000 \<le> score (hd ms)"
    by (cases ms; force)+
  then have "\<not> (\<forall>m\<in>set ms. 10000 \<le> score m)" by blast
  with minLoop_spec [of ms 0 10000 None] obtain k where
    "k < length ms" "minLoop ms 0 10000 None = Some k"
    "\<forall>j<length ms. score (ms ! k) \<le> score (ms ! j)"
    "\<forall>j<k. score (ms ! k) < score (ms ! j)"
    by auto
  then show ?thesis using assms(3) by (auto simp: chooseBest_def)
qed

lemma chooseBest_in:
  assumes "ms \<noteq> []" and "\<forall>m\<in>set ms. - 10000 < score m \<and> score m < 10000"
  shows "\<exists>m\<in>set ms. chooseBest p a ms = Some m"
proof (cases "p = a")
  case True
  with chooseBest_max [of ms a] assms show ?thesis by (metis nth_mem)
next
  case False
  with chooseBest_min [of ms p a] assms show ?thesis by (metis nth_mem)
qed

lemma minimax_fuel_total:
  "length (availSpots b) < n \<Longrightarrow>
   \<exists>m. minimax_fuel n h a b p = Some (Returned (Some m) b) \<and> score m \<in> {- 10, 0, 10}"
proof (induction n arbitrary: b p)
  case 0
  then show ?case by simp
next
  case (Suc n)
  show ?case
  proof (cases "checkWinState b h \<or> checkWinState b a \<or> availSpots b = []")
    case True
    then show ?thesis by auto
  next
    case False
    from Suc.prems have "length (availSpots b) \<le> n" by simp
    from tryMoves_total [of n h a "availSpots b" b p, OF Suc.IH _ this] obtain ms where
      ms: "tryMoves n h a (availSpots b) b p = Some (Returned ms b)"
          "map index ms = map Some (availSpots b)"
          "\<forall>m\<in>set ms. score m \<in> {- 10, 0, 10}"
      by auto
    from ms(2) False have "ms \<noteq> []" by auto
    moreover from ms(3) have "\<forall>m\<in>set ms. - 10000 < score m \<and> score m < 10000" by auto
    ultimately obtain m where "m \<in> set ms" "chooseBest p a ms = Some m"
      using chooseBest_in by blast
    then show ?thesis using False ms(1,3) by auto
  qed
qed

lemma tryMoves_mono:
  assumes "\<And>b p r. minimax_fuel n h a b p = Some r \<Longrightarrow> minimax_fuel (Suc n) h a b p = Some r"
  shows "tryMoves n h a is b p = Some r \<Longrightarrow> tryMoves (Suc n) h a is b p = Some r"
proof (induction "is" arbitrary: b r)
  case Nil
  then show ?case by simp
next
  case (Cons i "is")
  let ?q = "if p = a then h else a"
  show ?case
  proof (cases "minimax_fuel n h a (b[i := Mark p]) ?q")
    case None
    with Cons.prems show ?thesis by simp
  next
    case (Some x)
    note up = assms [OF Some]
    show ?thesis
    proof (cases x)
      case (Threw e b1)
      with Some up Cons.prems show ?thesis by (simp del: minimax_fuel.simps)
    next
      case (Returned mo b1)
      show ?thesis
      proof (cases mo)
        case None
        with Returned Some up Cons.prems show ?thesis by (simp del: minimax_fuel.simps)
      next
        case (Some m)
        note mo = this
        show ?thesis
        proof (cases "tryMoves n h a is (b1[i := Empty]) p")
          case None
          with mo Returned \<open>minimax_fuel n h a (b[i := Mark p]) ?q = Some x\<close> Cons.prems
          show ?thesis by (simp del: minimax_fuel.simps)
        next
          case (Some y)
          from Cons.IH [OF Some] Some mo Returned up
            \<open>minimax_fuel n h a (b[i := Mark p]) ?q = Some x\<close> Cons.prems
          show ?thesis by (simp del: minimax_fuel.simps)
        qed
      qed
    qed
  qed
qed

lemma minimax_fuel_Suc:
  "minimax_fuel n h a b p = Some r \<Longrightarrow> minimax_fuel (Suc n) h a b p = Some r"
proof (induction n arbitrary: b p r)
  case 0
  then show ?case by simp
next
  case (Suc n)
  have tm: "\<And>is b p r. tryMoves n h a is b p = Some r \<Longrightarrow> tryMoves (Suc n) h a is b p = Some r"
    using tryMoves_mono [of n h a] Suc.IH by blast
  show ?case
  proof (cases "checkWinState b h \<or> checkWinState b a \<or> availSpots b = []")
    case True
    with Suc.prems show ?thesis by auto
  next
    case False
    show ?thesis
    proof (cases "tryMoves n h a (availSpots b) b p")
      case None
      with False Suc.prems show ?thesis by simp
    next
      case (Some y)
      from tm [OF Some] Some False Suc.prems show ?thesis
        by (simp add: minimax_fuel.simps(2) [of "Suc n"] del: tryMoves.simps)
    qed
  qed
qed

lemma minimax_fuel_mono:
  "n \<le> k \<Longrightarrow> minimax_fuel n h a b p = Some r \<Longrightarrow> minimax_fuel k h a b p = Some r"
  by (induction k) (auto simp: le_Suc_eq minimax_fuel_Suc simp del: minimax_fuel.simps)

lemma minimax_fuel_any:
  assumes "length (availSpots b) < n"
  shows "minimax_fuel n h a b p = minimax h a b p"
proof -
  from minimax_fuel_total [of b "Suc (length (availSpots b))" h a p] obtain r where
    r: "minimax_fuel (Suc (length (availSpots b))) h a b p = Some r" by auto
  from assms have "Suc (length (availSpots b)) \<le> n" by simp
  from minimax_fuel_mono [OF this r] r show ?thesis by (simp add: minimax_def)
qed

section \<open>The value of a node\<close>

lemma minimax_returns:
  "minimax h a b p = Some (Returned (Some (moveOf h a b p)) b)"
proof -
  from minimax_fuel_total [of b "Suc (length (availSpots b))" h a p] obtain m where
    "minimax h a b p = Some (Returned (Some m) b)"
    by (auto simp: minimax_def simp del: minimax_fuel.simps)
  then show ?thesis by (simp add: moveOf_def)
qed

lemma scoreOf_range: "scoreOf h a b p \<in> {- 10, 0, 10}"
proof -
  from minimax_fuel_total [of b "Suc (length (availSpots b))" h a p] obtain m where
    "minimax h a b p = Some (Returned (Some m) b)" "score m \<in> {- 10, 0, 10}"
    by (auto simp: minimax_def simp del: minimax_fuel.simps)
  then show ?thesis by (simp add: moveOf_def scoreOf_def)
qed

lemma minimax_fuel_child:
  assumes "i \<in> set (availSpots b)" and "length (availSpots b) \<le> n"
  shows "minimax_fuel n h a (b[i := Mark p]) q
           = Some (Returned (Some (moveOf h a (b[i := Mark p]) q)) (b[i := Mark p]))"
proof -
  from assms have "length (availSpots (b[i := Mark p])) < n"
    using availSpots_child_less [of i b p] by simp
  from minimax_fuel_any [OF this] show ?thesis by (simp add: minimax_returns)
qed

lemma tryMoves_children:
  "set is \<subseteq> set (availSpots b) \<Longrightarrow> length (availSpots b) \<le> n \<Longrightarrow>
   tryMoves n h a is b p
     = Some (Returned (map (\<lambda>i. \<lparr>index = Some i, score = childScore h a b p i\<rparr>) is) b)"
proof (induction "is")
  case Nil
  then show ?case by simp
next
  case (Cons i "is")
  from Cons.prems have i: "i \<in> set (availSpots b)" by simp
  from Cons.IH Cons.prems have
    "tryMoves n h a is b p
       = Some (Returned (map (\<lambda>i. \<lparr>index = Some i, score = childScore h a b p i\<rparr>) is) b)"
    by simp
  then show ?case
    using minimax_fuel_child [OF i Cons.prems(2), of h a p "if p = a then h else a"]
      undo_move [OF i, of p]
    by (simp add: childScore_def scoreOf_def)
qed

lemma minimax_unfold:
  "minimax h a b p =
     (if checkWinState b h then Some (Returned (Some \<lparr>index = None, score = - 10\<rparr>) b)
      else if checkWinState b a then Some (Returned (Some \<lparr>index = None, score = 10\<rparr>) b)
      else if availSpots b = [] then Some (Returned (Some \<lparr>index = None, score = 0\<rparr>) b)
      else Some (Returned (chooseBest p a (childMoves h a b p)) b))"
  using tryMoves_children [of "availSpots b" b "length (availSpots b)" h a p]
  by (simp add: minimax_def childMoves_def)

lemma childMoves_scores:
  "m \<in> set (childMoves h a b p) \<Longrightarrow> score m \<in> {- 10, 0, 10}"
proof -
  assume "m \<in> set (childMoves h a b p)"
  then obtain i where "score m = childScore h a b p i"
    by (auto simp: childMoves_def)
  then show ?thesis
    using scoreOf_range [of h a "b[i := Mark p]" "if p = a then h else a"]
    by (simp add: childScore_def)
qed

lemma childMoves_nth:
  "k < length (availSpots b) \<Longrightarrow>
   childMoves h a b p ! k
     = \<lparr>index = Some (availSpots b ! k), score = childScore h a b p (availSpots b ! k)\<rparr>"
  by (simp add: childMoves_def)

lemma childMoves_length: "length (childMoves h a b p) = length (availSpots b)"
  by (simp add: childMoves_def)

lemma availSpots_nth_less:
  "j < k \<Longrightarrow> k < length (availSpots b) \<Longrightarrow> availSpots b ! j < availSpots b ! k"
  using availSpots_sorted [of b] by (simp add: sorted_wrt_iff_nth_less)

lemma availSpots_index_less:
  assumes "j < length (availSpots b)" "k < length (availSpots b)"
    and "availSpots b ! j < availSpots b ! k"
  shows "j < k"
proof (rule ccontr)
  assume "\<not> j < k"
  then have "k = j \<or> k < j" by auto
  then show False
  proof
    assume "k = j" with assms(3) show False by simp
  next
    assume "k < j"
    from availSpots_nth_less [OF this assms(1)] assms(3) show False by simp
  qed
qed

text \<open>The selected move at a non-terminal node.\<close>

lemma moveOf_max:
  assumes "\<not> terminal h a b"
  shows "\<exists>i\<in>set (availSpots b).
           moveOf h a b a = \<lparr>index = Some i, score = childScore h a b a i\<rparr>
           \<and> (\<forall>j\<in>set (availSpots b). childScore h a b a j \<le> childScore h a b a i)
           \<and> (\<forall>j\<in>set (availSpots b). j < i \<longrightarrow> childScore h a b a j < childScore h a b a i)"
proof -
  let ?cm = "childMoves h a b a"
  from assms have ne: "?cm \<noteq> []" by (simp add: terminal_def childMoves_def)
  have "\<forall>m\<in>set ?cm. - 10000 < score m" using childMoves_scores by fastforce
  from chooseBest_max [OF ne this, of a] obtain k where
    k: "k < length ?cm" "chooseBest a a ?cm = Some (?cm ! k)"
       "\<forall>j<length ?cm. score (?cm ! j) \<le> score (?cm ! k)"
       "\<forall>j<k. score (?cm ! j) < score (?cm ! k)"
    by blast
  let ?i = "availSpots b ! k"
  from k(1) have kl: "k < length (availSpots b)" by (simp add: childMoves_length)
  from assms k(2) have "moveOf h a b a = ?cm ! k"
    by (simp add: moveOf_def minimax_unfold terminal_def)
  then have 1: "moveOf h a b a = \<lparr>index = Some ?i, score = childScore h a b a ?i\<rparr>"
    using kl by (simp add: childMoves_nth)
  have 2: "childScore h a b a j \<le> childScore h a b a ?i" if "j \<in> set (availSpots b)" for j
  proof -
    from that obtain j' where j': "j' < length (availSpots b)" "availSpots b ! j' = j"
      by (auto simp: in_set_conv_nth)
    with k(3) kl show ?thesis by (auto simp: childMoves_nth childMoves_length)
  qed
  have 3: "childScore h a b a j < childScore h a b a ?i"
    if "j \<in> set (availSpots b)" "j < ?i" for j
  proof -
    from that obtain j' where j': "j' < length (availSpots b)" "availSpots b ! j' = j"
      by (auto simp: in_set_conv_nth)
    with that(2) kl have "j' < k" using availSpots_index_less [of j' b k] by simp
    with k(4) j' kl show ?thesis by (auto simp: childMoves_nth)
  qed
  from kl have "?i \<in> set (availSpots b)" by simp
  with 1 2 3 show ?thesis by blast
qed

lemma moveOf_min:
  assumes "\<not> terminal h a b" and "p \<noteq> a"
  shows "\<exists>i\<in>set (availSpots b).
           moveOf h a b p = \<lparr>index = Some i, score = childScore h a b p i\<rparr>
           \<and> (\<forall>j\<in>set (availSpots b). childScore h a b p i \<le> childScore h a b p j)
           \<and> (\<forall>j\<in>set (availSpots b). j < i \<longrightarrow> childScore h a b p i < childScore h a b p j)"
proof -
  let ?cm = "childMoves h a b p"
  from assms have ne: "?cm \<noteq> []" by (simp add: terminal_def childMoves_def)
  have "\<forall>m\<in>set ?cm. score m < 10000" using childMoves_scores by fastforce
  from chooseBest_min [OF ne this assms(2)] obtain k where
    k: "k < length ?cm" "chooseBest p a ?cm = Some (?cm ! k)"
       "\<forall>j<length ?cm. score (?cm ! k) \<le> score (?cm ! j)"
       "\<forall>j<k. score (?cm ! k) < score (?cm ! j)"
    by blast
  let ?i = "availSpots b ! k"
  from k(1) have kl: "k < length (availSpots b)" by (simp add: childMoves_length)
  from assms k(2) have "moveOf h a b p = ?cm ! k"
    by (simp add: moveOf_def minimax_unfold terminal_def)
  then have 1: "moveOf h a b p = \<lparr>index = Some ?i, score = childScore h a b p ?i\<rparr>"
    using kl by (simp add: childMoves_nth)
  have 2: "childScore h a b p ?i \<le> childScore h a b p j" if "j \<in> set (availSpots b)" for j
  proof -
    from that obtain j' where j': "j' < length (availSpots b)" "availSpots b ! j' = j"
      by (auto simp: in_set_conv_nth)
    with k(3) kl show ?thesis by (auto simp: childMoves_nth childMoves_length)
  qed
  have 3: "childScore h a b p ?i < childScore h a b p j"
    if "j \<in> set (availSpots b)" "j < ?i" for j
  proof -
    from that obtain j' where j': "j' < length (availSpots b)" "availSpots b ! j' = j"
      by (auto simp: in_set_conv_nth)
    with that(2) kl have "j' < k" using availSpots_index_less [of j' b k] by simp
    with k(4) j' kl show ?thesis by (auto simp: childMoves_nth)
  qed
  from kl have "?i \<in> set (availSpots b)" by simp
  with 1 2 3 show ?thesis by blast
qed

section \<open>Bounds on the value by a pruned search\<close>

lemma scoreOf_terminal:
  "checkWinState b h \<Longrightarrow> scoreOf h a b p = - 10"
  "\<not> checkWinState b h \<Longrightarrow> checkWinState b a \<Longrightarrow> scoreOf h a b p = 10"
  "\<not> checkWinState b h \<Longrightarrow> \<not> checkWinState b a \<Longrightarrow> availSpots b = [] \<Longrightarrow> scoreOf h a b p = 0"
  by (simp_all add: scoreOf_def moveOf_def minimax_unfold)

lemma scoreOf_max:
  assumes "\<not> terminal h a b"
  shows "\<exists>i\<in>set (availSpots b). scoreOf h a b a = childScore h a b a i
           \<and> (\<forall>j\<in>set (availSpots b). childScore h a b a j \<le> childScore h a b a i)"
  using moveOf_max [OF assms] by (fastforce simp: scoreOf_def)

lemma scoreOf_min:
  assumes "\<not> terminal h a b" and "p \<noteq> a"
  shows "\<exists>i\<in>set (availSpots b). scoreOf h a b p = childScore h a b p i
           \<and> (\<forall>j\<in>set (availSpots b). childScore h a b p i \<le> childScore h a b p j)"
  using moveOf_min [OF assms] by (fastforce simp: scoreOf_def)

lemma anyOf_iff: "anyOf f xs \<longleftrightarrow> (\<exists>x\<in>set xs. f x)"
  by (induction xs) auto

lemma allOf_iff: "allOf f xs \<longleftrightarrow> (\<forall>x\<in>set xs. f x)"
  by (induction xs) auto

lemma cellAt_Empty: "cellAt b i = Some Empty \<longleftrightarrow> i \<in> set (availSpots b)"
  by (auto simp: cellAt_def in_availSpots)

lemma candidates_avail: "i \<in> set (candidates b) \<Longrightarrow> i \<in> set (availSpots b)"
  unfolding candidates_def set_filter by (simp add: cellAt_Empty)

lemma forced_sound:
  "forced side n h a b p \<Longrightarrow>
   (if side then 0 \<le> scoreOf h a b p else scoreOf h a b p \<le> 0)"
proof (induction n arbitrary: b p)
  case 0
  then show ?case by simp
next
  case (Suc n)
  let ?q = "if p = a then h else a"
  show ?case
  proof (cases "terminal h a b")
    case True
    with Suc.prems show ?thesis
      by (auto simp: terminal_def scoreOf_terminal split: if_splits)
  next
    case False
    then have nt: "\<not> checkWinState b h" "\<not> checkWinState b a" "availSpots b \<noteq> []"
      by (simp_all add: terminal_def)
    show ?thesis
    proof (cases "(p = a) = side")
      case True
      with Suc.prems nt obtain i where
        i: "i \<in> set (candidates b)" "forced side n h a (b[i := Mark p]) ?q"
        by (auto simp: anyOf_iff)
      from Suc.IH [OF i(2)] have
        bnd: "if side then 0 \<le> childScore h a b p i else childScore h a b p i \<le> 0"
        by (simp add: childScore_def)
      from i(1) have ia: "i \<in> set (availSpots b)" by (rule candidates_avail)
      show ?thesis
      proof (cases side)
        case True
        with \<open>(p = a) = side\<close> have "p = a" by simp
        with scoreOf_max [OF False] ia bnd True show ?thesis by fastforce
      next
        case False
        with \<open>(p = a) = side\<close> have "p \<noteq> a" by simp
        with scoreOf_min [OF \<open>\<not> terminal h a b\<close> this] ia bnd False show ?thesis by fastforce
      qed
    next
      case False
      with Suc.prems nt have
        "\<forall>i\<in>set (availSpots b). forced side n h a (b[i := Mark p]) ?q"
        by (auto simp: allOf_iff)
      then have
        bnd: "\<forall>i\<in>set (availSpots b).
                if side then 0 \<le> childScore h a b p i else childScore h a b p i \<le> 0"
        unfolding childScore_def using Suc.IH by blast
      show ?thesis
      proof (cases side)
        case True
        with False have "p \<noteq> a" by simp
        with scoreOf_min [OF \<open>\<not> terminal h a b\<close> this] bnd True show ?thesis by fastforce
      next
        case False
        with \<open>(p = a) \<noteq> side\<close> have "p = a" by simp
        with scoreOf_max [OF \<open>\<not> terminal h a b\<close>] bnd False show ?thesis by fastforce
      qed
    qed
  qed
qed

section \<open>Completed lines\<close>

lemma checkWinLines_iff: "checkWinLines ls b p \<longleftrightarrow> (\<exists>l\<in>set ls. lineHeld b p l)"
  by (induction ls b p rule: checkWinLines.induct) (auto simp: lineHeld_def)

lemma checkWinState_iff: "checkWinState b p \<longleftrightarrow> (\<exists>l\<in>set winningConditions. lineHeld b p l)"
  by (simp add: checkWinState_def checkWinLines_iff)

lemma uniformLine_code:
  assumes "x < length b" "y < length b" "z < length b"
  shows "uniformLine b (x, y, z) \<longleftrightarrow>
           \<not> (cellAt b x = Some Empty \<or> cellAt b y = Some Empty \<or> cellAt b z = Some Empty)
           \<and> cellAt b x = cellAt b y \<and> cellAt b y = cellAt b z"
proof (cases "b ! x")
  case Empty
  with assms show ?thesis by (auto simp: uniformLine_def lineHeld_def cellAt_def)
next
  case (Mark q)
  with assms show ?thesis
    by (cases q) (auto simp: uniformLine_def lineHeld_def cellAt_def)
qed

lemma findLine_find:
  assumes "\<forall>(x, y, z)\<in>set ls. x < length b \<and> y < length b \<and> z < length b"
  shows "findLine ls b = map_option lineCells (find (uniformLine b) ls)"
  using assms
proof (induction ls b rule: findLine.induct)
  case (1 b)
  then show ?case by simp
next
  case (2 x y z rest b)
  then have r: "x < length b" "y < length b" "z < length b" by auto
  from 2 show ?case
    using uniformLine_code [OF r] by (auto simp: lineCells_def)
qed

lemma winningConditions_range:
  "length b = 9 \<Longrightarrow> \<forall>(x, y, z)\<in>set winningConditions. x < length b \<and> y < length b \<and> z < length b"
  by (simp add: winningConditions_def)

lemma findLine_None_iff:
  assumes "length b = 9"
  shows "findLine winningConditions b = None
           \<longleftrightarrow> \<not> checkWinState b PX \<and> \<not> checkWinState b PO"
  using findLine_find [OF winningConditions_range [OF assms]]
  by (auto simp: find_None_iff checkWinState_iff uniformLine_def)

lemma cellAt_update:
  "cellAt (b[i := Mark p]) x = Some (Mark q) \<Longrightarrow> q \<noteq> p \<Longrightarrow> cellAt b x = Some (Mark q)"
  by (cases "x = i") (auto simp: cellAt_def split: if_splits)

lemma lineHeld_update:
  "lineHeld (b[i := Mark p]) q l \<Longrightarrow> q \<noteq> p \<Longrightarrow> lineHeld b q l"
  by (cases l) (auto simp: lineHeld_def dest: cellAt_update)

lemma checkWinState_update:
  "checkWinState (b[i := Mark p]) q \<Longrightarrow> q \<noteq> p \<Longrightarrow> checkWinState b q"
  unfolding checkWinState_iff using lineHeld_update by blast

lemma availSpots_Nil_iff: "availSpots b = [] \<longleftrightarrow> Empty \<notin> set b"
proof
  assume e: "availSpots b = []"
  show "Empty \<notin> set b"
  proof
    assume "Empty \<in> set b"
    then obtain i where "i < length b" "b ! i = Empty" by (auto simp: in_set_conv_nth)
    then have "i \<in> set (availSpots b)" by (simp add: in_availSpots)
    with e show False by simp
  qed
next
  assume "Empty \<notin> set b"
  then have "\<forall>i. i \<notin> set (availSpots b)"
    unfolding in_availSpots by (metis nth_mem)
  then show "availSpots b = []" by (cases "availSpots b") auto
qed

lemma makeMove_unfold:
  assumes "idx < length (board g)"
  shows "makeMove idx pl g =
     Returned ()
       (case findLine winningConditions ((board g)[idx := Mark pl]) of
          Some line \<Rightarrow>
            g\<lparr>board := (board g)[idx := Mark pl], isGameActive := False,
              statusDisplay := WinShown (currentPlayer g) line\<rparr>
        | None \<Rightarrow>
            (if Empty \<notin> set ((board g)[idx := Mark pl])
             then g\<lparr>board := (board g)[idx := Mark pl], isGameActive := False,
                    statusDisplay := DrawShown\<rparr>
             else updateStatus
                    (g\<lparr>board := (board g)[idx := Mark pl],
                       currentPlayer := (if currentPlayer g = PX then PO else PX)\<rparr>)))"
  using assms
  by (simp add: makeMove_def checkResult_def handleGameEnd_def split: option.splits)

section \<open>The invariant of a game against the computer\<close>

lemma click_while_thinking:
  "gameMode g = Pvc \<Longrightarrow> currentPlayer g = aiPlayer g \<Longrightarrow>
   handleCellClick c g = Returned False g"
  by (simp add: handleCellClick_def)

lemma playTurn_rejected:
  "clickedCell (board g) c \<noteq> Some Empty \<or> \<not> isGameActive g \<Longrightarrow>
   playTurn c g = Some (Returned () g)"
  by (simp add: playTurn_def handleCellClick_def)

lemma sessionInv_draw:
  assumes "sessionInv g" "length b' = 9" "\<not> checkWinState b' PX"
  shows "sessionInv (g\<lparr>board := b', isGameActive := False, statusDisplay := DrawShown\<rparr>)"
  using assms by (simp add: sessionInv_def)

lemma sessionInv_aiWin:
  assumes "sessionInv g" "length b' = 9" "\<not> checkWinState b' PX"
  shows "sessionInv (g\<lparr>board := b', isGameActive := False, statusDisplay := WinShown PO line\<rparr>)"
  using assms by (simp add: sessionInv_def)

lemma aiMove_inv:
  assumes g: "gameMode g = Pvc" "humanPlayer g = PX" "aiPlayer g = PO" "isGameActive g"
      "currentPlayer g = PO" "length (board g) = 9"
    and nw: "\<not> checkWinState (board g) PX" "\<not> checkWinState (board g) PO"
    and em: "Empty \<in> set (board g)"
    and sc: "0 \<le> scoreOf PX PO (board g) PO"
  shows "\<exists>g'. makeAiMove g = Some (Returned () g') \<and> sessionInv g'"
proof -
  let ?b = "board g"
  from nw em have nt: "\<not> terminal PX PO ?b"
    by (simp add: terminal_def availSpots_Nil_iff)
  from moveOf_max [OF nt] obtain j where
    j: "j \<in> set (availSpots ?b)"
       "moveOf PX PO ?b PO = \<lparr>index = Some j, score = childScore PX PO ?b PO j\<rparr>"
    by blast
  let ?b2 = "?b[j := Mark PO]"
  from j(1) have jl: "j < length ?b" by (simp add: in_availSpots)
  have l2: "length ?b2 = 9" using g(6) by simp
  have sc2: "0 \<le> scoreOf PX PO ?b2 PX"
    using sc j(2) by (simp add: scoreOf_def childScore_def)
  have nwx2: "\<not> checkWinState ?b2 PX"
    using checkWinState_update [of ?b j PO PX] nw(1) by auto
  have base: "sessionInv (g\<lparr>board := ?b, isGameActive := False, statusDisplay := DrawShown\<rparr>)"
    using g nw by (simp add: sessionInv_def)
  have ai: "makeAiMove g = Some (makeMove j PO g)"
    using g j(2) by (simp add: makeAiMove_def minimax_returns)
  show ?thesis
  proof (cases "findLine winningConditions ?b2")
    case (Some line)
    then have "makeMove j PO g
        = Returned () (g\<lparr>board := ?b2, isGameActive := False, statusDisplay := WinShown PO line\<rparr>)"
      using jl g(5) by (simp add: makeMove_unfold)
    moreover have "sessionInv (g\<lparr>board := ?b2, isGameActive := False,
                                 statusDisplay := WinShown PO line\<rparr>)"
      using g nwx2 l2 by (simp add: sessionInv_def)
    ultimately show ?thesis using ai by simp
  next
    case None
    then have nwo2: "\<not> checkWinState ?b2 PO" using findLine_None_iff [OF l2] by simp
    show ?thesis
    proof (cases "Empty \<in> set ?b2")
      case False
      then have "makeMove j PO g
          = Returned () (g\<lparr>board := ?b2, isGameActive := False, statusDisplay := DrawShown\<rparr>)"
        using jl None by (simp add: makeMove_unfold)
      moreover have "sessionInv (g\<lparr>board := ?b2, isGameActive := False,
                                   statusDisplay := DrawShown\<rparr>)"
        using g nwx2 l2 by (simp add: sessionInv_def)
      ultimately show ?thesis using ai by simp
    next
      case True
      then have "makeMove j PO g
          = Returned () (g\<lparr>board := ?b2, currentPlayer := PX, statusDisplay := Turn PX\<rparr>)"
        using jl None g by (simp add: makeMove_unfold updateStatus_def)
      moreover have "sessionInv (g\<lparr>board := ?b2, currentPlayer := PX, statusDisplay := Turn PX\<rparr>)"
        using g nwx2 nwo2 l2 True sc2 by (simp add: sessionInv_def)
      ultimately show ?thesis using ai by simp
    qed
  qed
qed

lemma playTurn_inv:
  assumes inv: "sessionInv g"
  shows "\<exists>g'. playTurn c g = Some (Returned () g') \<and> sessionInv g'"
proof (cases "clickedCell (board g) c \<noteq> Some Empty \<or> \<not> isGameActive g")
  case True
  with playTurn_rejected [OF True] inv show ?thesis by simp
next
  case False
  then have act: "isGameActive g" and cc: "clickedCell (board g) c = Some Empty" by simp_all
  let ?b = "board g"
  let ?i = "nat c"
  let ?b1 = "?b[?i := Mark PX]"
  from inv act have g: "gameMode g = Pvc" "humanPlayer g = PX" "aiPlayer g = PO"
      "length ?b = 9" "currentPlayer g = PX"
    and nw: "\<not> checkWinState ?b PX" "\<not> checkWinState ?b PO"
    and em: "Empty \<in> set ?b" and sc: "0 \<le> scoreOf PX PO ?b PX"
    by (simp_all add: sessionInv_def)
  from cc have ia: "?i \<in> set (availSpots ?b)"
    by (auto simp: clickedCell_def cellAt_Empty split: if_splits)
  then have il: "?i < length ?b" by (simp add: in_availSpots)
  have l1: "length ?b1 = 9" using g(4) by simp
  from nw em have nt: "\<not> terminal PX PO ?b"
    by (simp add: terminal_def availSpots_Nil_iff)
  from scoreOf_min [OF nt, of PX] ia have "scoreOf PX PO ?b PX \<le> childScore PX PO ?b PX ?i"
    by auto
  with sc have sc1: "0 \<le> scoreOf PX PO ?b1 PO" by (simp add: childScore_def)
  have nwx1: "\<not> checkWinState ?b1 PX"
    using sc1 scoreOf_terminal(1) [of ?b1 PX PO PO] by auto
  have nwo1: "\<not> checkWinState ?b1 PO"
    using checkWinState_update [of ?b ?i PX PO] nw(2) by auto
  have fl1: "findLine winningConditions ?b1 = None"
    using findLine_None_iff [OF l1] nwx1 nwo1 by simp
  show ?thesis
  proof (cases "Empty \<in> set ?b1")
    case False
    then have "makeMove ?i PX g
        = Returned () (g\<lparr>board := ?b1, isGameActive := False, statusDisplay := DrawShown\<rparr>)"
      using il fl1 by (simp add: makeMove_unfold)
    then have "playTurn c g
        = Some (Returned () (g\<lparr>board := ?b1, isGameActive := False, statusDisplay := DrawShown\<rparr>))"
      using act cc g by (simp add: playTurn_def handleCellClick_def)
    with sessionInv_draw [OF inv l1 nwx1] show ?thesis by simp
  next
    case True
    let ?g1 = "g\<lparr>board := ?b1, currentPlayer := PO, statusDisplay := Thinking\<rparr>"
    from True have "makeMove ?i PX g = Returned () ?g1"
      using il fl1 g act by (simp add: makeMove_unfold updateStatus_def)
    then have pt: "playTurn c g = makeAiMove ?g1"
      using act cc g by (simp add: playTurn_def handleCellClick_def)
    have "\<exists>g'. makeAiMove ?g1 = Some (Returned () g') \<and> sessionInv g'"
      by (rule aiMove_inv) (use g act l1 nwx1 nwo1 True sc1 in simp_all)
    with pt show ?thesis by simp
  qed
qed

lemma playGame_inv:
  "sessionInv g \<Longrightarrow> \<exists>g'. playGame cs g = Some (Returned () g') \<and> sessionInv g'"
proof (induction cs arbitrary: g)
  case Nil
  then show ?case by simp
next
  case (Cons c cs)
  from playTurn_inv [OF Cons.prems, of c] obtain g1 where
    "playTurn c g = Some (Returned () g1)" "sessionInv g1" by blast
  with Cons.IH [of g1] show ?case by simp
qed

section \<open>Evaluation on nine-cell boards\<close>

lemma checkWinState9:
  "checkWinState [c0, c1, c2, c3, c4, c5, c6, c7, c8] p =
     (c0 = Mark p \<and> c1 = Mark p \<and> c2 = Mark p \<or>
      c3 = Mark p \<and> c4 = Mark p \<and> c5 = Mark p \<or>
      c6 = Mark p \<and> c7 = Mark p \<and> c8 = Mark p \<or>
      c0 = Mark p \<and> c3 = Mark p \<and> c6 = Mark p \<or>
      c1 = Mark p \<and> c4 = Mark p \<and> c7 = Mark p \<or>
      c2 = Mark p \<and> c5 = Mark p \<and> c8 = Mark p \<or>
      c0 = Mark p \<and> c4 = Mark p \<and> c8 = Mark p \<or>
      c2 = Mark p \<and> c4 = Mark p \<and> c6 = Mark p)"
  unfolding checkWinState_iff winningConditions_def lineHeld_def cellAt_def
  by simp

lemma availSpots9:
  "availSpots [c0, c1, c2, c3, c4, c5, c6, c7, c8] =
     (if c0 = Empty then [0] else []) @
     (if c1 = Empty then [Suc 0] else []) @
     (if c2 = Empty then [Suc (Suc 0)] else []) @
     (if c3 = Empty then [Suc (Suc (Suc 0))] else []) @
     (if c4 = Empty then [Suc (Suc (Suc (Suc 0)))] else []) @
     (if c5 = Empty then [Suc (Suc (Suc (Suc (Suc 0))))] else []) @
     (if c6 = Empty then [Suc (Suc (Suc (Suc (Suc (Suc 0)))))] else []) @
     (if c7 = Empty then [Suc (Suc (Suc (Suc (Suc (Suc (Suc 0))))))] else []) @
     (if c8 = Empty then [Suc (Suc (Suc (Suc (Suc (Suc (Suc (Suc 0)))))))] else [])"
  by (simp add: availSpots_def)

lemma candidates9:
  "candidates [c0, c1, c2, c3, c4, c5, c6, c7, c8] =
     (if c4 = Empty then [Suc (Suc (Suc (Suc 0)))] else []) @
     (if c0 = Empty then [0] else []) @
     (if c2 = Empty then [Suc (Suc 0)] else []) @
     (if c6 = Empty then [Suc (Suc (Suc (Suc (Suc (Suc 0)))))] else []) @
     (if c8 = Empty then [Suc (Suc (Suc (Suc (Suc (Suc (Suc (Suc 0)))))))] else []) @
     (if c1 = Empty then [Suc 0] else []) @
     (if c3 = Empty then [Suc (Suc (Suc 0))] else []) @
     (if c5 = Empty then [Suc (Suc (Suc (Suc (Suc 0))))] else []) @
     (if c7 = Empty then [Suc (Suc (Suc (Suc (Suc (Suc (Suc 0))))))] else [])"
proof -
  have c: "cellAt [c0, c1, c2, c3, c4, c5, c6, c7, c8] 4 = Some c4"
    "cellAt [c0, c1, c2, c3, c4, c5, c6, c7, c8] 0 = Some c0"
    "cellAt [c0, c1, c2, c3, c4, c5, c6, c7, c8] 2 = Some c2"
    "cellAt [c0, c1, c2, c3, c4, c5, c6, c7, c8] 6 = Some c6"
    "cellAt [c0, c1, c2, c3, c4, c5, c6, c7, c8] 8 = Some c8"
    "cellAt [c0, c1, c2, c3, c4, c5, c6, c7, c8] 1 = Some c1"
    "cellAt [c0, c1, c2, c3, c4, c5, c6, c7, c8] 3 = Some c3"
    "cellAt [c0, c1, c2, c3, c4, c5, c6, c7, c8] 5 = Some c5"
    "cellAt [c0, c1, c2, c3, c4, c5, c6, c7, c8] 7 = Some c7"
    by (simp_all add: cellAt_def)
  have n: "(4::nat) = Suc (Suc (Suc (Suc 0)))" "(2::nat) = Suc (Suc 0)"
    "(6::nat) = Suc (Suc (Suc (Suc (Suc (Suc 0)))))"
    "(8::nat) = Suc (Suc (Suc (Suc (Suc (Suc (Suc (Suc 0)))))))"
    "(3::nat) = Suc (Suc (Suc 0))" "(5::nat) = Suc (Suc (Suc (Suc (Suc 0))))"
    "(7::nat) = Suc (Suc (Suc (Suc (Suc (Suc (Suc 0))))))"
    by simp_all
  have f: "\<And>P x xs. filter P (x # xs) = (if P x then [x] else []) @ filter P xs"
    by simp
  show ?thesis
    unfolding candidates_def f c filter.simps(1) append_Nil2 option.inject
    by (simp only: n One_nat_def)
qed

lemma forced_numeral:
  "forced side (numeral k) h a b p =
     (if checkWinState b h then \<not> side
      else if checkWinState b a then side
      else if availSpots b = [] then True
      else if (p = a) = side
        then anyOf (\<lambda>i. forced side (pred_numeral k) h a (b[i := Mark p])
                          (if p = a then h else a)) (candidates b)
      else allOf (\<lambda>i. forced side (pred_numeral k) h a (b[i := Mark p])
                        (if p = a then h else a)) (availSpots b))"
  using forced.simps(2) [of side "pred_numeral k" h a b p] by (simp only: numeral_eq_Suc)

lemmas board_eval =
  forced_numeral forced.simps One_nat_def checkWinState9 availSpots9 candidates9
  anyOf.simps allOf.simps list_update.simps nat.case cell.simps player.simps
  if_True if_False simp_thms append.simps list.simps pred_numeral_simps BitM.simps

lemma empty_not_losing:
  "forced True 10 PX PO [Empty, Empty, Empty, Empty, Empty, Empty, Empty, Empty, Empty] PX"
  by (simp only: board_eval cong: if_weak_cong)

section \<open>The opening position\<close>

lemma replicate9: "replicate 9 c = [c, c, c, c, c, c, c, c, c]"
  by (simp add: eval_nat_numeral)

lemma start_session:
  "setMode Pvc newGame =
     \<lparr>board = [Empty, Empty, Empty, Empty, Empty, Empty, Empty, Empty, Empty],
      currentPlayer = PX, isGameActive = True, gameMode = Pvc,
      humanPlayer = PX, aiPlayer = PO, statusDisplay = Turn PX\<rparr>"
  by (simp add: setMode_def newGame_def resetGame_def updateStatus_def replicate9)

lemma start_inv: "sessionInv (setMode Pvc newGame)"
proof -
  have "0 \<le> scoreOf PX PO [Empty, Empty, Empty, Empty, Empty, Empty, Empty, Empty, Empty] PX"
    using forced_sound [OF empty_not_losing] by simp
  then show ?thesis
    by (simp add: start_session sessionInv_def checkWinState9)
qed

section \<open>Properties of the search\<close>

lemma moveOf_choice:
  assumes "\<not> terminal h a b"
  shows "\<exists>i\<in>set (availSpots b).
           moveOf h a b p = \<lparr>index = Some i, score = childScore h a b p i\<rparr>
           \<and> (if p = a
                then (\<forall>j\<in>set (availSpots b). childScore h a b p j \<le> childScore h a b p i)
                   \<and> (\<forall>j\<in>set (availSpots b). j < i \<longrightarrow> childScore h a b p j < childScore h a b p i)
                else (\<forall>j\<in>set (availSpots b). childScore h a b p i \<le> childScore h a b p j)
                   \<and> (\<forall>j\<in>set (availSpots b). j < i \<longrightarrow> childScore h a b p i < childScore h a b p j))"
proof (cases "p = a")
  case True
  with moveOf_max [OF assms] show ?thesis by simp
next
  case False
  with moveOf_min [OF assms False] show ?thesis by simp
qed

lemma minimax_fuel_frame:
  assumes "minimax_fuel n h a b p = Some r"
  shows "r = Returned (Some (moveOf h a b p)) b"
proof -
  let ?k = "max n (Suc (length (availSpots b)))"
  have "minimax_fuel ?k h a b p = Some r"
    using minimax_fuel_mono [OF _ assms, of ?k] by simp
  moreover have "minimax_fuel ?k h a b p = minimax h a b p"
    by (rule minimax_fuel_any) simp
  ultimately show ?thesis by (simp add: minimax_returns)
qed

lemma selection_defined:
  assumes "\<not> terminal h a b"
  shows "\<exists>k<length (childMoves h a b p).
           (if p = a then maxLoop (childMoves h a b p) 0 (- 10000) None
            else minLoop (childMoves h a b p) 0 10000 None) = Some k
           \<and> moveOf h a b p = childMoves h a b p ! k"
proof -
  from assms have m: "minimax h a b p = Some (Returned (chooseBest p a (childMoves h a b p)) b)"
    by (simp add: minimax_unfold terminal_def)
  with minimax_returns [of h a b p]
  have cb: "chooseBest p a (childMoves h a b p) = Some (moveOf h a b p)" by simp
  then show ?thesis
    by (auto simp: chooseBest_def split: option.splits if_splits)
qed

lemma example_avail:
  "availSpots [Mark PX, Mark PO, Mark PX, Mark PO, Mark PO, Mark PX, Mark PX, Empty, Empty] = [7, 8]"
  by (simp add: availSpots9)

lemma example_not_terminal:
  "\<not> terminal PX PO [Mark PX, Mark PO, Mark PX, Mark PO, Mark PO, Mark PX, Mark PX, Empty, Empty]"
  by (simp add: terminal_def checkWinState9 availSpots9)

lemma example_child7:
  "childScore PX PO [Mark PX, Mark PO, Mark PX, Mark PO, Mark PO, Mark PX, Mark PX, Empty, Empty] PX 7 = 0"
  by (simp add: childScore_def scoreOf_def moveOf_def minimax_unfold checkWinState9
      availSpots9 childMoves_def chooseBest_def)

lemma example_child8:
  "childScore PX PO [Mark PX, Mark PO, Mark PX, Mark PO, Mark PO, Mark PX, Mark PX, Empty, Empty] PX 8 = - 10"
  by (simp add: childScore_def scoreOf_def moveOf_def minimax_unfold checkWinState9)

text \<open>C3: the base case of \<open>minimax\<close> tests, in this order, a completed line of the human
  player (score -10), a completed line of the computer (score +10), and a board without an
  empty cell (score 0); every other node is scored by the selection over the scores of its
  children, each obtained by the recursive call on the board with one more mark.\<close>

theorem minimax_base_case_order:
  "minimax human ai b player =
     (if checkWinState b human
        then Some (Returned (Some \<lparr>index = None, score = - 10\<rparr>) b)
      else if checkWinState b ai
        then Some (Returned (Some \<lparr>index = None, score = 10\<rparr>) b)
      else if availSpots b = []
        then Some (Returned (Some \<lparr>index = None, score = 0\<rparr>) b)
      else Some (Returned (chooseBest player ai (childMoves human ai b player)) b))"
  by (rule minimax_unfold)

theorem minimax_base_case_order_witness:
  "minimax PX PO [Mark PX, Mark PX, Mark PX, Mark PO, Mark PO, Mark PO, Empty, Empty, Empty] PX
     = Some (Returned (Some \<lparr>index = None, score = - 10\<rparr>)
         [Mark PX, Mark PX, Mark PX, Mark PO, Mark PO, Mark PO, Empty, Empty, Empty])
   \<and> minimax PX PO [Mark PO, Mark PO, Mark PO, Mark PX, Mark PX, Empty, Empty, Empty, Empty] PX
     = Some (Returned (Some \<lparr>index = None, score = 10\<rparr>)
         [Mark PO, Mark PO, Mark PO, Mark PX, Mark PX, Empty, Empty, Empty, Empty])
   \<and> minimax PX PO [Mark PX, Mark PO, Mark PX, Mark PO, Mark PO, Mark PX, Mark PX, Mark PX, Mark PO] PX
     = Some (Returned (Some \<lparr>index = None, score = 0\<rparr>)
         [Mark PX, Mark PO, Mark PX, Mark PO, Mark PO, Mark PX, Mark PX, Mark PX, Mark PO])"
  using
    minimax_base_case_order [of PX PO
      "[Mark PX, Mark PX, Mark PX, Mark PO, Mark PO, Mark PO, Empty, Empty, Empty]" PX]
    minimax_base_case_order [of PX PO
      "[Mark PO, Mark PO, Mark PO, Mark PX, Mark PX, Empty, Empty, Empty, Empty]" PX]
    minimax_base_case_order [of PX PO
      "[Mark PX, Mark PO, Mark PX, Mark PO, Mark PO, Mark PX, Mark PX, Mark PX, Mark PO]" PX]
  by (simp add: checkWinState9 availSpots9)

text \<open>C4: at a non-terminal node the search returns the smallest empty cell (the empty
  cells are enumerated in ascending order) whose child score is the maximum when the mover is
  the computer and the minimum otherwise, together with that child's score; a second call on
  the board left by the first returns the same move.\<close>

theorem selectMove_first_extremal:
  assumes "\<not> terminal human ai b"
  shows "sorted_wrt (<) (availSpots b)
       \<and> (\<exists>i\<in>set (availSpots b).
            minimax human ai b player
              = Some (Returned (Some \<lparr>index = Some i, score = childScore human ai b player i\<rparr>) b)
          \<and> (if player = ai
              then (\<forall>j\<in>set (availSpots b).
                      childScore human ai b player j \<le> childScore human ai b player i)
                 \<and> (\<forall>j\<in>set (availSpots b).
                      j < i \<longrightarrow> childScore human ai b player j < childScore human ai b player i)
              else (\<forall>j\<in>set (availSpots b).
                      childScore human ai b player i \<le> childScore human ai b player j)
                 \<and> (\<forall>j\<in>set (availSpots b).
                      j < i \<longrightarrow> childScore human ai b player i < childScore human ai b player j)))
       \<and> (\<forall>r b'. minimax human ai b player = Some (Returned r b')
            \<longrightarrow> minimax human ai b' player = Some (Returned r b'))"
proof -
  from moveOf_choice [OF assms, of player] obtain i where
    i: "i \<in> set (availSpots b)"
       "moveOf human ai b player = \<lparr>index = Some i, score = childScore human ai b player i\<rparr>"
       "if player = ai
        then (\<forall>j\<in>set (availSpots b).
                childScore human ai b player j \<le> childScore human ai b player i)
           \<and> (\<forall>j\<in>set (availSpots b).
                j < i \<longrightarrow> childScore human ai b player j < childScore human ai b player i)
        else (\<forall>j\<in>set (availSpots b).
                childScore human ai b player i \<le> childScore human ai b player j)
           \<and> (\<forall>j\<in>set (availSpots b).
                j < i \<longrightarrow> childScore human ai b player i < childScore human ai b player j)"
    by blast
  have m: "minimax human ai b player
      = Some (Returned (Some \<lparr>index = Some i, score = childScore human ai b player i\<rparr>) b)"
    using minimax_returns [of human ai b player] i(2) by simp
  have "\<forall>r b'. minimax human ai b player = Some (Returned r b')
            \<longrightarrow> minimax human ai b' player = Some (Returned r b')"
    using m by simp
  with i(1,3) m availSpots_sorted [of b] show ?thesis by blast
qed

theorem selectMove_first_extremal_witness:
  "\<not> terminal PX PO [Mark PX, Mark PO, Mark PX, Mark PO, Mark PO, Mark PX, Mark PX, Empty, Empty]
   \<and> minimax PX PO [Mark PX, Mark PO, Mark PX, Mark PO, Mark PO, Mark PX, Mark PX, Empty, Empty] PX
       = Some (Returned (Some \<lparr>index = Some 8, score = - 10\<rparr>)
           [Mark PX, Mark PO, Mark PX, Mark PO, Mark PO, Mark PX, Mark PX, Empty, Empty])"
  using selectMove_first_extremal [OF example_not_terminal, of PX]
    example_avail example_child7 example_child8 example_not_terminal
  by auto

text \<open>C5: a call of \<open>minimax\<close> leaves the board exactly as it found it, for every board and
  player and whatever the fuel of the run; it never throws; and inside the loop every
  sibling is scored on the caller's board with that sibling's mark alone, the mark of the
  previous sibling having been removed.\<close>

theorem minimax_restores_board:
  "(\<exists>m. minimax human ai b player = Some (Returned m b))
   \<and> (\<forall>n r. minimax_fuel n human ai b player = Some r \<longrightarrow> (\<exists>m. r = Returned m b))
   \<and> (\<forall>n spots. set spots \<subseteq> set (availSpots b) \<and> length (availSpots b) \<le> n \<longrightarrow>
         tryMoves n human ai spots b player
           = Some (Returned
               (map (\<lambda>i. \<lparr>index = Some i, score = childScore human ai b player i\<rparr>) spots) b))"
  using minimax_returns [of human ai b player] minimax_fuel_frame [of _ human ai b player]
    tryMoves_children [of _ b _ human ai player]
  by blast

theorem minimax_restores_board_witness:
  "minimax PX PO [Mark PX, Mark PO, Mark PX, Mark PO, Mark PO, Mark PX, Mark PX, Empty, Empty] PX
     = Some (Returned (Some \<lparr>index = Some 8, score = - 10\<rparr>)
         [Mark PX, Mark PO, Mark PX, Mark PO, Mark PO, Mark PX, Mark PX, Empty, Empty])
   \<and> tryMoves 2 PX PO [7, 8]
       [Mark PX, Mark PO, Mark PX, Mark PO, Mark PO, Mark PX, Mark PX, Empty, Empty] PX
     = Some (Returned [\<lparr>index = Some 7, score = 0\<rparr>, \<lparr>index = Some 8, score = - 10\<rparr>]
         [Mark PX, Mark PO, Mark PX, Mark PO, Mark PO, Mark PX, Mark PX, Empty, Empty])"
proof -
  let ?b = "[Mark PX, Mark PO, Mark PX, Mark PO, Mark PO, Mark PX, Mark PX, Empty, Empty]"
  note frame = minimax_restores_board [of PX PO ?b PX]
  from frame obtain m where m: "minimax PX PO ?b PX = Some (Returned m ?b)" by blast
  have "minimax PX PO ?b PX = Some (Returned (Some \<lparr>index = Some 8, score = - 10\<rparr>) ?b)"
    using m example_not_terminal example_avail example_child7 example_child8
    by (simp add: minimax_unfold terminal_def childMoves_def chooseBest_def)
  moreover have "set [7, 8] \<subseteq> set (availSpots ?b) \<and> length (availSpots ?b) \<le> 2"
    by (simp add: example_avail)
  with frame have "tryMoves 2 PX PO [7, 8] ?b PX
      = Some (Returned
          (map (\<lambda>i. \<lparr>index = Some i, score = childScore PX PO ?b PX i\<rparr>) [7, 8]) ?b)"
    by blast
  ultimately show ?thesis by (simp add: example_child7 example_child8)
qed

text \<open>C6: at a non-terminal board the index returned by the top-level call is an empty cell
  of that board.\<close>

theorem selectMove_returns_empty_cell:
  assumes "\<not> terminal human ai b"
  shows "\<exists>i s. minimax human ai b player
                 = Some (Returned (Some \<lparr>index = Some i, score = s\<rparr>) b)
               \<and> cellAt b i = Some Empty"
proof -
  from moveOf_choice [OF assms, of player] obtain i where
    "i \<in> set (availSpots b)"
    "moveOf human ai b player = \<lparr>index = Some i, score = childScore human ai b player i\<rparr>"
    by blast
  then show ?thesis
    using minimax_returns [of human ai b player] by (auto simp: cellAt_Empty)
qed

theorem selectMove_returns_empty_cell_witness:
  "\<not> terminal PX PO [Mark PX, Mark PO, Mark PX, Mark PO, Mark PO, Mark PX, Mark PX, Mark PX, Empty]
   \<and> (\<exists>i s. minimax PX PO
                [Mark PX, Mark PO, Mark PX, Mark PO, Mark PO, Mark PX, Mark PX, Mark PX, Empty] PO
              = Some (Returned (Some \<lparr>index = Some i, score = s\<rparr>)
                  [Mark PX, Mark PO, Mark PX, Mark PO, Mark PO, Mark PX, Mark PX, Mark PX, Empty])
            \<and> cellAt [Mark PX, Mark PO, Mark PX, Mark PO, Mark PO, Mark PX, Mark PX, Mark PX, Empty] i
                = Some Empty)"
proof -
  have nt: "\<not> terminal PX PO
      [Mark PX, Mark PO, Mark PX, Mark PO, Mark PO, Mark PX, Mark PX, Mark PX, Empty]"
    by (simp add: terminal_def checkWinState9 availSpots9)
  from selectMove_returns_empty_cell [OF nt, of PO] nt show ?thesis by blast
qed

text \<open>C9: \<open>minimax\<close> returns on every board: any fuel above the number of empty cells is
  enough, because each recursive call is made on a board with strictly fewer empty cells
  and a board without empty cells is answered without recursion; ten units suffice for a
  nine-cell board.\<close>

theorem minimax_terminates:
  "(\<forall>n. length (availSpots b) < n \<longrightarrow>
       (\<exists>m. minimax_fuel n human ai b player = Some (Returned (Some m) b)))
   \<and> (\<forall>i\<in>set (availSpots b). length (availSpots (b[i := Mark player])) < length (availSpots b))
   \<and> (length b = 9 \<longrightarrow> (\<exists>m. minimax_fuel 10 human ai b player = Some (Returned (Some m) b)))"
proof -
  have 1: "\<forall>n. length (availSpots b) < n \<longrightarrow>
       (\<exists>m. minimax_fuel n human ai b player = Some (Returned (Some m) b))"
    using minimax_fuel_total [of b _ human ai player] by blast
  have 2: "\<forall>i\<in>set (availSpots b).
       length (availSpots (b[i := Mark player])) < length (availSpots b)"
    using availSpots_child_less by blast
  have "length (availSpots b) \<le> length b"
    by (simp add: availSpots_length)
  then have 3: "length b = 9 \<longrightarrow>
       (\<exists>m. minimax_fuel 10 human ai b player = Some (Returned (Some m) b))"
    using minimax_fuel_total [of b 10 human ai player] by auto
  from 1 2 3 show ?thesis by blast
qed

theorem minimax_terminates_witness:
  "length (availSpots [Mark PX, Mark PO, Mark PX, Mark PO, Mark PO, Mark PX, Mark PX, Empty, Empty]) < 3
   \<and> (\<exists>m. minimax_fuel 3 PX PO
             [Mark PX, Mark PO, Mark PX, Mark PO, Mark PO, Mark PX, Mark PX, Empty, Empty] PX
           = Some (Returned (Some m)
               [Mark PX, Mark PO, Mark PX, Mark PO, Mark PO, Mark PX, Mark PX, Empty, Empty]))
   \<and> 7 \<in> set (availSpots [Mark PX, Mark PO, Mark PX, Mark PO, Mark PO, Mark PX, Mark PX, Empty, Empty])
   \<and> length (availSpots
        ([Mark PX, Mark PO, Mark PX, Mark PO, Mark PO, Mark PX, Mark PX, Empty, Empty][7 := Mark PX]))
       < length (availSpots
           [Mark PX, Mark PO, Mark PX, Mark PO, Mark PO, Mark PX, Mark PX, Empty, Empty])"
proof -
  let ?b = "[Mark PX, Mark PO, Mark PX, Mark PO, Mark PO, Mark PX, Mark PX, Empty, Empty]"
  have l: "length (availSpots ?b) < 3" by (simp add: availSpots9)
  have i: "7 \<in> set (availSpots ?b)" by (simp add: availSpots9)
  from minimax_terminates [of ?b PX PO PX] l i show ?thesis by blast
qed

text \<open>C10: every score returned by \<open>minimax\<close> is -10, 0 or 10; so every child score lies
  strictly between the sentinels -10000 and 10000, and at a non-terminal node the selection
  loop ends with a defined position whose entry is the move returned.\<close>

theorem minimax_score_range:
  "(\<exists>m. minimax human ai b player = Some (Returned (Some m) b) \<and> score m \<in> {- 10, 0, 10})
   \<and> (\<forall>m\<in>set (childMoves human ai b player). - 10000 < score m \<and> score m < 10000)
   \<and> (\<not> terminal human ai b \<longrightarrow>
        (\<exists>k<length (childMoves human ai b player).
           (if player = ai then maxLoop (childMoves human ai b player) 0 (- 10000) None
            else minLoop (childMoves human ai b player) 0 10000 None) = Some k
           \<and> minimax human ai b player
               = Some (Returned (Some (childMoves human ai b player ! k)) b)))"
proof -
  have 1: "\<exists>m. minimax human ai b player = Some (Returned (Some m) b) \<and> score m \<in> {- 10, 0, 10}"
    using minimax_returns [of human ai b player] scoreOf_range [of human ai b player]
    by (simp add: scoreOf_def)
  have 2: "\<forall>m\<in>set (childMoves human ai b player). - 10000 < score m \<and> score m < 10000"
    using childMoves_scores [of _ human ai b player] by fastforce
  have 3: "\<not> terminal human ai b \<longrightarrow>
        (\<exists>k<length (childMoves human ai b player).
           (if player = ai then maxLoop (childMoves human ai b player) 0 (- 10000) None
            else minLoop (childMoves human ai b player) 0 10000 None) = Some k
           \<and> minimax human ai b player
               = Some (Returned (Some (childMoves human ai b player ! k)) b))"
    using selection_defined [of human ai b player] minimax_returns [of human ai b player]
    by auto
  from 1 2 3 show ?thesis by blast
qed

theorem minimax_score_range_witness:
  "\<not> terminal PX PO [Mark PX, Mark PO, Mark PX, Mark PO, Mark PO, Mark PX, Mark PX, Empty, Empty]
   \<and> (\<exists>m. minimax PX PO
             [Mark PX, Mark PO, Mark PX, Mark PO, Mark PO, Mark PX, Mark PX, Empty, Empty] PX
           = Some (Returned (Some m)
               [Mark PX, Mark PO, Mark PX, Mark PO, Mark PO, Mark PX, Mark PX, Empty, Empty])
         \<and> score m \<in> {- 10, 0, 10})
   \<and> minLoop [\<lparr>index = Some 7, score = 0\<rparr>, \<lparr>index = Some 8, score = - 10\<rparr>] 0 10000 None
       = Some 1"
proof -
  let ?b = "[Mark PX, Mark PO, Mark PX, Mark PO, Mark PO, Mark PX, Mark PX, Empty, Empty]"
  have cm: "childMoves PX PO ?b PX
      = [\<lparr>index = Some 7, score = 0\<rparr>, \<lparr>index = Some 8, score = - 10\<rparr>]"
    by (simp add: childMoves_def example_avail example_child7 example_child8)
  from minimax_score_range [of PX PO ?b PX] example_not_terminal
  obtain k where "minLoop (childMoves PX PO ?b PX) 0 10000 None = Some k"
    "minimax PX PO ?b PX = Some (Returned (Some (childMoves PX PO ?b PX ! k)) ?b)"
    by auto
  then have "minLoop [\<lparr>index = Some 7, score = 0\<rparr>, \<lparr>index = Some 8, score = - 10\<rparr>] 0 10000 None
       = Some 1"
    by (simp add: cm)
  with minimax_score_range [of PX PO ?b PX] example_not_terminal show ?thesis by blast
qed

section \<open>A winning move, the result check and the click handler\<close>

lemma top_row_completion:
  assumes nh: "\<not> checkWinState [Mark PX, Mark PX, Empty, c3, c4, c5, c6, c7, c8] PO"
    and na: "\<not> checkWinState [Mark PX, Mark PX, Empty, c3, c4, c5, c6, c7, c8] PX"
  shows "minimax PO PX [Mark PX, Mark PX, Empty, c3, c4, c5, c6, c7, c8] PX
           = Some (Returned (Some \<lparr>index = Some 2, score = 10\<rparr>)
               [Mark PX, Mark PX, Empty, c3, c4, c5, c6, c7, c8])"
proof -
  let ?b = "[Mark PX, Mark PX, Empty, c3, c4, c5, c6, c7, c8]"
  have two: "2 \<in> set (availSpots ?b)" by (simp add: in_availSpots)
  then have nt: "\<not> terminal PO PX ?b" using nh na by (auto simp: terminal_def)
  from moveOf_max [OF nt] obtain i where
    i: "i \<in> set (availSpots ?b)"
       "moveOf PO PX ?b PX = \<lparr>index = Some i, score = childScore PO PX ?b PX i\<rparr>"
       "\<forall>j\<in>set (availSpots ?b). j < i \<longrightarrow> childScore PO PX ?b PX j < childScore PO PX ?b PX i"
    by blast
  have "\<not> checkWinState (?b[2 := Mark PX]) PO"
    using checkWinState_update [of ?b 2 PX PO] nh by auto
  moreover have "checkWinState (?b[2 := Mark PX]) PX"
    by (simp add: checkWinState9)
  ultimately have c2: "childScore PO PX ?b PX 2 = 10"
    by (simp add: childScore_def scoreOf_terminal(2))
  have "childScore PO PX ?b PX i \<le> 10"
    using scoreOf_range [of PO PX "?b[i := Mark PX]" PO] by (auto simp: childScore_def)
  with i(3) two c2 have "\<not> 2 < i" by fastforce
  moreover from i(1) have e: "?b ! i = Empty" by (simp add: in_availSpots)
  have "i \<noteq> 0"
  proof
    assume "i = 0" with e show False by simp
  qed
  moreover have "i \<noteq> 1"
  proof
    assume "i = 1" with e show False by simp
  qed
  ultimately have "i = 2" by simp
  with i(2) c2 minimax_returns [of PO PX ?b PX] show ?thesis by simp
qed

text \<open>C8: with the computer playing X and the human playing O, the search on the board
  \<open>[X, X, _, _, O, _, _, _, _]\<close> returns cell 2 with score 10; the same holds whatever the
  cells 3 to 8 contain, as long as neither player has a completed line yet.\<close>

theorem selectMove_completes_top_row:
  "minimax PO PX [Mark PX, Mark PX, Empty, Empty, Mark PO, Empty, Empty, Empty, Empty] PX
     = Some (Returned (Some \<lparr>index = Some 2, score = 10\<rparr>)
         [Mark PX, Mark PX, Empty, Empty, Mark PO, Empty, Empty, Empty, Empty])
   \<and> (\<forall>c3 c4 c5 c6 c7 c8.
         \<not> checkWinState [Mark PX, Mark PX, Empty, c3, c4, c5, c6, c7, c8] PO
         \<and> \<not> checkWinState [Mark PX, Mark PX, Empty, c3, c4, c5, c6, c7, c8] PX
         \<longrightarrow> minimax PO PX [Mark PX, Mark PX, Empty, c3, c4, c5, c6, c7, c8] PX
               = Some (Returned (Some \<lparr>index = Some 2, score = 10\<rparr>)
                   [Mark PX, Mark PX, Empty, c3, c4, c5, c6, c7, c8]))"
proof -
  have "minimax PO PX [Mark PX, Mark PX, Empty, Empty, Mark PO, Empty, Empty, Empty, Empty] PX
     = Some (Returned (Some \<lparr>index = Some 2, score = 10\<rparr>)
         [Mark PX, Mark PX, Empty, Empty, Mark PO, Empty, Empty, Empty, Empty])"
    by (rule top_row_completion) (simp_all add: checkWinState9)
  then show ?thesis using top_row_completion by blast
qed

theorem selectMove_completes_top_row_witness:
  "\<not> checkWinState [Mark PX, Mark PX, Empty, Mark PO, Mark PO, Empty, Empty, Empty, Empty] PO
   \<and> \<not> checkWinState [Mark PX, Mark PX, Empty, Mark PO, Mark PO, Empty, Empty, Empty, Empty] PX
   \<and> minimax PO PX [Mark PX, Mark PX, Empty, Mark PO, Mark PO, Empty, Empty, Empty, Empty] PX
       = Some (Returned (Some \<lparr>index = Some 2, score = 10\<rparr>)
           [Mark PX, Mark PX, Empty, Mark PO, Mark PO, Empty, Empty, Empty, Empty])"
proof -
  have n: "\<not> checkWinState [Mark PX, Mark PX, Empty, Mark PO, Mark PO, Empty, Empty, Empty, Empty] PO"
    "\<not> checkWinState [Mark PX, Mark PX, Empty, Mark PO, Mark PO, Empty, Empty, Empty, Empty] PX"
    by (simp_all add: checkWinState9)
  with selectMove_completes_top_row show ?thesis by blast
qed

lemma checkResult_find:
  assumes "length (board g) = 9"
  shows "checkResult g =
     (case find (uniformLine (board g)) winningConditions of
        Some l \<Rightarrow> Some (Winner (currentPlayer g) (lineCells l))
      | None \<Rightarrow> (if Empty \<in> set (board g) then None else Some DrawResult))"
  using findLine_find [OF winningConditions_range [OF assms]]
  by (simp add: checkResult_def split: option.splits)

text \<open>C2, as the code has it: on a nine-cell board \<open>checkResult\<close> reports a win for the
  current player exactly when one of the eight lines holds three equal marks of either
  player, and the line reported is the first such line of the table; with no such line it
  reports a draw when no cell is empty and nothing otherwise. When the other player has no
  completed line, a win is reported exactly when the current player has one.\<close>

theorem checkResult_any_uniform_line:
  assumes "length (board g) = 9"
  shows "((\<exists>line. checkResult g = Some (Winner (currentPlayer g) line))
            \<longleftrightarrow> (\<exists>l\<in>set winningConditions. lineHeld (board g) PX l \<or> lineHeld (board g) PO l))
       \<and> (\<forall>w line. checkResult g = Some (Winner w line) \<longrightarrow>
             w = currentPlayer g
             \<and> map_option lineCells (find (uniformLine (board g)) winningConditions) = Some line)
       \<and> (checkResult g = Some DrawResult
            \<longleftrightarrow> \<not> (\<exists>l\<in>set winningConditions. lineHeld (board g) PX l \<or> lineHeld (board g) PO l)
                \<and> Empty \<notin> set (board g))
       \<and> (checkResult g = None
            \<longleftrightarrow> \<not> (\<exists>l\<in>set winningConditions. lineHeld (board g) PX l \<or> lineHeld (board g) PO l)
                \<and> Empty \<in> set (board g))
       \<and> (\<not> checkWinState (board g) (if currentPlayer g = PX then PO else PX) \<longrightarrow>
            ((\<exists>line. checkResult g = Some (Winner (currentPlayer g) line))
               \<longleftrightarrow> checkWinState (board g) (currentPlayer g)))"
proof (cases "find (uniformLine (board g)) winningConditions")
  case None
  then have no: "\<not> (\<exists>l\<in>set winningConditions. lineHeld (board g) PX l \<or> lineHeld (board g) PO l)"
    by (auto simp: find_None_iff uniformLine_def)
  then have "\<not> checkWinState (board g) (currentPlayer g)"
    by (cases "currentPlayer g") (auto simp: checkWinState_iff)
  with no None checkResult_find [OF assms] show ?thesis by auto
next
  case (Some l)
  then have l: "l \<in> set winningConditions" "uniformLine (board g) l"
    by (auto simp: find_Some_iff)
  then have yes: "\<exists>l\<in>set winningConditions. lineHeld (board g) PX l \<or> lineHeld (board g) PO l"
    by (auto simp: uniformLine_def)
  have res: "checkResult g = Some (Winner (currentPlayer g) (lineCells l))"
    using Some checkResult_find [OF assms] by simp
  have "\<not> checkWinState (board g) (if currentPlayer g = PX then PO else PX) \<longrightarrow>
        checkWinState (board g) (currentPlayer g)"
    using yes by (cases "currentPlayer g") (auto simp: checkWinState_iff)
  with yes res Some show ?thesis by auto
qed

theorem checkResult_any_uniform_line_witness:
  "length (board \<lparr>board = [Mark PX, Mark PX, Mark PX, Mark PO, Mark PO, Empty, Empty, Empty, Empty],
       currentPlayer = PX, isGameActive = True, gameMode = Pvp, humanPlayer = PX, aiPlayer = PO,
       statusDisplay = Turn PX\<rparr>) = 9
   \<and> checkResult \<lparr>board = [Mark PX, Mark PX, Mark PX, Mark PO, Mark PO, Empty, Empty, Empty, Empty],
       currentPlayer = PX, isGameActive = True, gameMode = Pvp, humanPlayer = PX, aiPlayer = PO,
       statusDisplay = Turn PX\<rparr> = Some (Winner PX [0, 1, 2])"
proof -
  let ?g = "\<lparr>board = [Mark PX, Mark PX, Mark PX, Mark PO, Mark PO, Empty, Empty, Empty, Empty],
       currentPlayer = PX, isGameActive = True, gameMode = Pvp, humanPlayer = PX, aiPlayer = PO,
       statusDisplay = Turn PX\<rparr>"
  have len: "length (board ?g) = 9" by simp
  have "\<exists>line. checkResult ?g = Some (Winner (currentPlayer ?g) line)"
    using checkResult_any_uniform_line [OF len]
    by (simp add: winningConditions_def lineHeld_def cellAt_def)
  then obtain line where line: "checkResult ?g = Some (Winner PX line)" by auto
  with checkResult_any_uniform_line [OF len]
  have "map_option lineCells (find (uniformLine (board ?g)) winningConditions) = Some line"
    by blast
  then have "line = [0, 1, 2]"
    by (simp add: winningConditions_def uniformLine_def lineHeld_def cellAt_def lineCells_def)
  with line len show ?thesis by simp
qed

theorem checkResult_counterexample:
  "checkResult \<lparr>board = [Mark PO, Mark PO, Mark PO, Mark PX, Mark PX, Empty, Empty, Empty, Empty],
       currentPlayer = PX, isGameActive = True, gameMode = Pvp, humanPlayer = PX, aiPlayer = PO,
       statusDisplay = Turn PX\<rparr> = Some (Winner PX [0, 1, 2])
   \<and> \<not> checkWinState [Mark PO, Mark PO, Mark PO, Mark PX, Mark PX, Empty, Empty, Empty, Empty] PX"
  by (simp add: checkResult_def winningConditions_def cellAt_def checkWinState9)

text \<open>C7: a click is rejected, with the whole session left as it was and no computer move
  scheduled, whenever the index is outside the nine cells, the cell is occupied or the game
  is over; a click the handler accepts places the current player's mark on the clicked
  cell.\<close>

theorem handleCellClick_rejects_illegal:
  assumes "length (board g) = 9"
  shows "(idx < 0 \<or> 9 \<le> idx \<or> board g ! nat idx \<noteq> Empty \<or> \<not> isGameActive g
            \<longrightarrow> handleCellClick idx g = Returned False g)
       \<and> (0 \<le> idx \<and> idx < 9 \<and> board g ! nat idx = Empty \<and> isGameActive g
          \<and> \<not> (gameMode g = Pvc \<and> currentPlayer g = aiPlayer g)
            \<longrightarrow> (\<exists>timer g'. handleCellClick idx g = Returned timer g'
                  \<and> board g' = (board g)[nat idx := Mark (currentPlayer g)]))"
proof -
  have rej: "handleCellClick idx g = Returned False g"
    if "idx < 0 \<or> 9 \<le> idx \<or> board g ! nat idx \<noteq> Empty \<or> \<not> isGameActive g"
    using that assms by (auto simp: handleCellClick_def clickedCell_def cellAt_def)
  have acc: "\<exists>timer g'. handleCellClick idx g = Returned timer g'
                  \<and> board g' = (board g)[nat idx := Mark (currentPlayer g)]"
    if a: "0 \<le> idx \<and> idx < 9 \<and> board g ! nat idx = Empty \<and> isGameActive g
          \<and> \<not> (gameMode g = Pvc \<and> currentPlayer g = aiPlayer g)"
  proof -
    from a have "nat idx < 9" by arith
    with assms have il: "nat idx < length (board g)" by simp
    from a il have cc: "clickedCell (board g) idx = Some Empty"
      by (simp add: clickedCell_def cellAt_def)
    obtain g' where mm: "makeMove (nat idx) (currentPlayer g) g = Returned () g'"
      "board g' = (board g)[nat idx := Mark (currentPlayer g)]"
      using makeMove_unfold [OF il, of "currentPlayer g"]
      by (auto simp: updateStatus_def split: option.splits if_splits)
    with a cc show ?thesis by (auto simp: handleCellClick_def)
  qed
  from rej acc show ?thesis by blast
qed

theorem handleCellClick_rejects_illegal_witness:
  "handleCellClick 4
     \<lparr>board = [Empty, Empty, Empty, Empty, Mark PX, Empty, Empty, Empty, Empty],
      currentPlayer = PO, isGameActive = True, gameMode = Pvp, humanPlayer = PX, aiPlayer = PO,
      statusDisplay = Turn PO\<rparr>
     = Returned False
        \<lparr>board = [Empty, Empty, Empty, Empty, Mark PX, Empty, Empty, Empty, Empty],
         currentPlayer = PO, isGameActive = True, gameMode = Pvp, humanPlayer = PX, aiPlayer = PO,
         statusDisplay = Turn PO\<rparr>
   \<and> (\<exists>timer g'. handleCellClick 0
         \<lparr>board = [Empty, Empty, Empty, Empty, Mark PX, Empty, Empty, Empty, Empty],
          currentPlayer = PO, isGameActive = True, gameMode = Pvp, humanPlayer = PX, aiPlayer = PO,
          statusDisplay = Turn PO\<rparr> = Returned timer g'
        \<and> board g' = [Mark PO, Empty, Empty, Empty, Mark PX, Empty, Empty, Empty, Empty])"
proof -
  let ?g = "\<lparr>board = [Empty, Empty, Empty, Empty, Mark PX, Empty, Empty, Empty, Empty],
      currentPlayer = PO, isGameActive = True, gameMode = Pvp, humanPlayer = PX, aiPlayer = PO,
      statusDisplay = Turn PO\<rparr>"
  have len: "length (board ?g) = 9" by simp
  from handleCellClick_rejects_illegal [OF len, of 4]
  have 1: "handleCellClick 4 ?g = Returned False ?g" by simp
  from handleCellClick_rejects_illegal [OF len, of 0]
  have 2: "\<exists>timer g'. handleCellClick 0 ?g = Returned timer g'
        \<and> board g' = [Mark PO, Empty, Empty, Empty, Mark PX, Empty, Empty, Empty, Empty]"
    by simp
  from 1 2 show ?thesis by blast
qed

section \<open>The computer never loses\<close>

lemma reply_to_edge:
  "minimax PX PO [Empty, Mark PX, Empty, Empty, Empty, Empty, Empty, Empty, Empty] PO
     = Some (Returned (Some \<lparr>index = Some 0, score = 0\<rparr>)
         [Empty, Mark PX, Empty, Empty, Empty, Empty, Empty, Empty, Empty])"
proof -
  let ?b = "[Empty, Mark PX, Empty, Empty, Empty, Empty, Empty, Empty, Empty]"
  have nt: "\<not> terminal PX PO ?b"
    by (simp add: terminal_def checkWinState9 availSpots9)
  have zero: "0 \<in> set (availSpots ?b)" by (simp add: in_availSpots)
  from moveOf_max [OF nt] obtain i where
    i: "i \<in> set (availSpots ?b)"
       "moveOf PX PO ?b PO = \<lparr>index = Some i, score = childScore PX PO ?b PO i\<rparr>"
       "\<forall>j\<in>set (availSpots ?b). childScore PX PO ?b PO j \<le> childScore PX PO ?b PO i"
       "\<forall>j\<in>set (availSpots ?b). j < i \<longrightarrow> childScore PX PO ?b PO j < childScore PX PO ?b PO i"
    by blast
  have "forced True 8 PX PO [Mark PO, Mark PX, Empty, Empty, Empty, Empty, Empty, Empty, Empty] PX"
    by (simp only: board_eval cong: if_weak_cong)
  from forced_sound [OF this] have lo: "0 \<le> childScore PX PO ?b PO 0"
    by (simp add: childScore_def)
  have "forced False 9 PX PO ?b PO"
    by (simp only: board_eval cong: if_weak_cong)
  from forced_sound [OF this] i(2) have hi: "childScore PX PO ?b PO i \<le> 0"
    by (simp add: scoreOf_def)
  from i(3) zero lo hi have eq: "childScore PX PO ?b PO i = 0" "childScore PX PO ?b PO 0 = 0"
    by fastforce+
  with i(4) zero have "\<not> 0 < i" by fastforce
  then have "i = 0" by simp
  with i(2) eq minimax_returns [of PX PO ?b PO] show ?thesis by simp
qed

lemma reply_second:
  "minimax PX PO [Mark PO, Mark PX, Empty, Mark PX, Empty, Empty, Empty, Empty, Empty] PO
     = Some (Returned (Some \<lparr>index = Some 4, score = 0\<rparr>)
         [Mark PO, Mark PX, Empty, Mark PX, Empty, Empty, Empty, Empty, Empty])"
  by code_simp

lemma reply_third:
  "minimax PX PO [Mark PO, Mark PX, Mark PX, Mark PX, Mark PO, Empty, Empty, Empty, Empty] PO
     = Some (Returned (Some \<lparr>index = Some 8, score = 10\<rparr>)
         [Mark PO, Mark PX, Mark PX, Mark PX, Mark PO, Empty, Empty, Empty, Empty])"
  by code_simp

lemmas turn_eval =
  playTurn_def handleCellClick_def clickedCell_def cellAt_def makeMove_def checkResult_def
  winningConditions_def handleGameEnd_def updateStatus_def makeAiMove_def

lemma first_turn:
  "playTurn 1 (setMode Pvc newGame) = Some (Returned ()
     \<lparr>board = [Mark PO, Mark PX, Empty, Empty, Empty, Empty, Empty, Empty, Empty],
      currentPlayer = PX, isGameActive = True, gameMode = Pvc,
      humanPlayer = PX, aiPlayer = PO, statusDisplay = Turn PX\<rparr>)"
  by (simp add: start_session turn_eval reply_to_edge)

lemma second_turn:
  "playTurn 3
     \<lparr>board = [Mark PO, Mark PX, Empty, Empty, Empty, Empty, Empty, Empty, Empty],
      currentPlayer = PX, isGameActive = True, gameMode = Pvc,
      humanPlayer = PX, aiPlayer = PO, statusDisplay = Turn PX\<rparr>
   = Some (Returned ()
     \<lparr>board = [Mark PO, Mark PX, Empty, Mark PX, Mark PO, Empty, Empty, Empty, Empty],
      currentPlayer = PX, isGameActive = True, gameMode = Pvc,
      humanPlayer = PX, aiPlayer = PO, statusDisplay = Turn PX\<rparr>)"
  by (simp add: turn_eval reply_second)

lemma third_turn:
  "playTurn 2
     \<lparr>board = [Mark PO, Mark PX, Empty, Mark PX, Mark PO, Empty, Empty, Empty, Empty],
      currentPlayer = PX, isGameActive = True, gameMode = Pvc,
      humanPlayer = PX, aiPlayer = PO, statusDisplay = Turn PX\<rparr>
   = Some (Returned ()
     \<lparr>board = [Mark PO, Mark PX, Mark PX, Mark PX, Mark PO, Empty, Empty, Empty, Mark PO],
      currentPlayer = PO, isGameActive = False, gameMode = Pvc,
      humanPlayer = PX, aiPlayer = PO, statusDisplay = WinShown PO [0, 4, 8]\<rparr>)"
  by (simp add: turn_eval reply_third)

text \<open>C1: whatever cells the human clicks, and in whatever order, a game against the
  computer started from the empty board runs without an exception and never shows a
  completed line of the human; once the game is over the display is a draw or a win of
  the computer.\<close>

theorem computer_never_loses:
  "\<exists>g. playGame clicks (setMode Pvc newGame) = Some (Returned () g)
       \<and> \<not> checkWinState (board g) (humanPlayer g)
       \<and> (isGameActive g \<or> statusDisplay g = DrawShown
            \<or> (\<exists>line. statusDisplay g = WinShown (aiPlayer g) line))"
proof -
  from playGame_inv [OF start_inv, of clicks] obtain g where
    g: "playGame clicks (setMode Pvc newGame) = Some (Returned () g)" "sessionInv g"
    by blast
  from g(2) have "\<not> checkWinState (board g) (humanPlayer g)"
    by (simp add: sessionInv_def)
  moreover from g(2) have "isGameActive g \<or> statusDisplay g = DrawShown
      \<or> (\<exists>line. statusDisplay g = WinShown (aiPlayer g) line)"
    by (cases "statusDisplay g") (auto simp: sessionInv_def split: if_splits)
  ultimately show ?thesis using g(1) by blast
qed

theorem computer_never_loses_witness:
  "playGame [1, 3, 2] (setMode Pvc newGame) = Some (Returned ()
     \<lparr>board = [Mark PO, Mark PX, Mark PX, Mark PX, Mark PO, Empty, Empty, Empty, Mark PO],
      currentPlayer = PO, isGameActive = False, gameMode = Pvc,
      humanPlayer = PX, aiPlayer = PO, statusDisplay = WinShown PO [0, 4, 8]\<rparr>)
   \<and> \<not> checkWinState
         [Mark PO, Mark PX, Mark PX, Mark PX, Mark PO, Empty, Empty, Empty, Mark PO] PX"
  using computer_never_loses [of "[1, 3, 2]"]
  by (simp add: first_turn second_turn third_turn)

end
